theory Spec2Isabelle
  imports Complex_Main
begin

section \<open>The Reversi board of \<open>src/docs/script.ts\<close>\<close>

text \<open>
  Numbers are modelled as integers: coordinates, cell values, players and the size are
  whole numbers wherever the program produces them. The grid \<open>number[][]\<close> is a list of
  rows; every row is a separate array (the constructor and \<open>clone\<close> build each row
  afresh), so a write to one row changes no other row.

  The methods take the player as an argument; the default \<open>this.currentPlayer\<close> of
  \<open>isValidMove\<close>, \<open>getValidMoves\<close> and \<open>applyMove\<close> is the call with \<open>currentPlayer b\<close>.

  A call either returns or faults. \<open>TypeError\<close> is JavaScript reading or writing a
  property of \<open>undefined\<close> (a row that does not exist). \<open>Diverges\<close> is the outcome of a
  \<open>while\<close> loop whose state repeats, so that it never exits. \<open>SparseWrite\<close> stands for
  an assignment outside an existing row, which would leave an array that is no grid of
  numbers any more; the program never performs one (lemma \<open>applyMove_fault\<close>).
\<close>

datatype error = TypeError | Diverges | SparseWrite

record ReversiBoard =
  size_b :: int
  board :: "int list list"
  currentPlayer :: int

definition directions :: "(int \<times> int) list" where
  "directions = [(1, 0), (-1, 0), (0, 1), (0, -1), (1, 1), (1, -1), (-1, 1), (-1, -1)]"

text \<open>\<open>this.board[y]\<close>: \<open>None\<close> is \<open>undefined\<close>.\<close>

definition row_at :: "ReversiBoard \<Rightarrow> int \<Rightarrow> int list option" where
  "row_at b y =
     (if 0 \<le> y \<and> y < int (length (board b)) then Some (board b ! nat y) else None)"

text \<open>\<open>this.board[y][x]\<close>: a fault when the row is \<open>undefined\<close>, otherwise the cell or
  \<open>undefined\<close> (\<open>None\<close>).\<close>

definition cell_at :: "ReversiBoard \<Rightarrow> int \<Rightarrow> int \<Rightarrow> error + int option" where
  "cell_at b x y =
     (case row_at b y of
        None \<Rightarrow> Inl TypeError
      | Some r \<Rightarrow> Inr (if 0 \<le> x \<and> x < int (length r) then Some (r ! nat x) else None))"

text \<open>\<open>this.board[y][x] = v\<close>.\<close>

definition set_cell :: "ReversiBoard \<Rightarrow> int \<Rightarrow> int \<Rightarrow> int \<Rightarrow> error + ReversiBoard" where
  "set_cell b x y v =
     (case row_at b y of
        None \<Rightarrow> Inl TypeError
      | Some r \<Rightarrow>
          if 0 \<le> x \<and> x < int (length r)
          then Inr (b\<lparr>board := (board b)[nat y := r[nat x := v]]\<rparr>)
          else Inl SparseWrite)"

text \<open>The constructor: a \<open>size \<times> size\<close> grid of zeros, then \<open>init\<close>. With an odd size
  \<open>mid\<close> is no whole number and \<open>this.board[mid - 1]\<close> is \<open>undefined\<close>.\<close>

definition init :: "ReversiBoard \<Rightarrow> error + ReversiBoard" where
  "init b =
     (if size_b b mod 2 \<noteq> 0 then Inl TypeError
      else
        let mid = size_b b div 2 in
        (case set_cell b (mid - 1) (mid - 1) (-1) of
           Inl e \<Rightarrow> Inl e
         | Inr b1 \<Rightarrow>
             (case set_cell b1 mid mid (-1) of
                Inl e \<Rightarrow> Inl e
              | Inr b2 \<Rightarrow>
                  (case set_cell b2 mid (mid - 1) 1 of
                     Inl e \<Rightarrow> Inl e
                   | Inr b3 \<Rightarrow> set_cell b3 (mid - 1) mid 1))))"

definition new_ReversiBoard :: "int \<Rightarrow> error + ReversiBoard" where
  "new_ReversiBoard n =
     init \<lparr>size_b = n, board = replicate (nat n) (replicate (nat n) 0), currentPlayer = 1\<rparr>"

definition clone :: "ReversiBoard \<Rightarrow> error + ReversiBoard" where
  "clone b =
     (case new_ReversiBoard (size_b b) of
        Inl e \<Rightarrow> Inl e
      | Inr c \<Rightarrow> Inr (c\<lparr>board := map (\<lambda>row. row) (board b), currentPlayer := currentPlayer b\<rparr>))"

definition inBounds :: "ReversiBoard \<Rightarrow> int \<Rightarrow> int \<Rightarrow> bool" where
  "inBounds b x y \<longleftrightarrow> x \<ge> 0 \<and> x < size_b b \<and> y \<ge> 0 \<and> y < size_b b"

text \<open>The \<open>while\<close> loop of \<open>isValidMove\<close>, on the state \<open>(nx, ny, foundOpponent)\<close>. With
  \<open>dx = dy = 0\<close> an iteration leaves \<open>nx\<close> and \<open>ny\<close> as they are and the loop never exits.\<close>

function walkValid ::
  "ReversiBoard \<Rightarrow> int \<Rightarrow> int \<times> int \<Rightarrow> int \<times> int \<times> bool \<Rightarrow> error + int \<times> int \<times> bool" where
  "walkValid b player (dx, dy) (nx, ny, foundOpponent) =
     (if inBounds b nx ny then
        (case cell_at b nx ny of
           Inl e \<Rightarrow> Inl e
         | Inr v \<Rightarrow>
             if v = Some (- player) then
               (if dx = 0 \<and> dy = 0 then Inl Diverges
                else walkValid b player (dx, dy) (nx + dx, ny + dy, True))
             else Inr (nx, ny, foundOpponent))
      else Inr (nx, ny, foundOpponent))"
  by pat_completeness auto
termination
  by (relation "measure (\<lambda>(b, player, (dx, dy), (nx, ny, f)).
        if dx > 0 then nat (size_b b - nx)
        else if dx < 0 then nat (nx + 1)
        else if dy > 0 then nat (size_b b - ny)
        else nat (ny + 1))")
     (auto simp: inBounds_def)

declare walkValid.simps [simp del]

text \<open>The \<open>for\<close> loop of \<open>isValidMove\<close> over the directions still to try.\<close>

fun validDirs :: "ReversiBoard \<Rightarrow> int \<Rightarrow> int \<Rightarrow> int \<Rightarrow> (int \<times> int) list \<Rightarrow> error + bool" where
  "validDirs b x y player [] = Inr False"
| "validDirs b x y player ((dx, dy) # ds) =
     (case walkValid b player (dx, dy) (x + dx, y + dy, False) of
        Inl e \<Rightarrow> Inl e
      | Inr (nx, ny, foundOpponent) \<Rightarrow>
          if foundOpponent \<and> inBounds b nx ny then
            (case cell_at b nx ny of
               Inl e \<Rightarrow> Inl e
             | Inr v \<Rightarrow> if v = Some player then Inr True else validDirs b x y player ds)
          else validDirs b x y player ds)"

definition isValidMove :: "ReversiBoard \<Rightarrow> int \<Rightarrow> int \<Rightarrow> int \<Rightarrow> error + bool" where
  "isValidMove b x y player =
     (case cell_at b x y of
        Inl e \<Rightarrow> Inl e
      | Inr v \<Rightarrow> if v \<noteq> Some 0 then Inr False else validDirs b x y player directions)"

text \<open>The cells in the order of the two nested \<open>for\<close> loops of \<open>getValidMoves\<close>.\<close>

definition scanOrder :: "ReversiBoard \<Rightarrow> (int \<times> int) list" where
  "scanOrder b = concat (map (\<lambda>y. map (\<lambda>x. (x, y)) [0 .. size_b b - 1]) [0 .. size_b b - 1])"

fun keepValid :: "ReversiBoard \<Rightarrow> int \<Rightarrow> (int \<times> int) list \<Rightarrow> error + (int \<times> int) list" where
  "keepValid b player [] = Inr []"
| "keepValid b player ((x, y) # cs) =
     (case isValidMove b x y player of
        Inl e \<Rightarrow> Inl e
      | Inr ok \<Rightarrow>
          (case keepValid b player cs of
             Inl e \<Rightarrow> Inl e
           | Inr moves \<Rightarrow> Inr (if ok then (x, y) # moves else moves)))"

definition getValidMoves :: "ReversiBoard \<Rightarrow> int \<Rightarrow> error + (int \<times> int) list" where
  "getValidMoves b player = keepValid b player (scanOrder b)"

definition switchPlayer :: "ReversiBoard \<Rightarrow> ReversiBoard" where
  "switchPlayer b = b\<lparr>currentPlayer := - currentPlayer b\<rparr>"

text \<open>The \<open>while\<close> loop of \<open>applyMove\<close>, on the state \<open>(nx, ny, flips)\<close>.\<close>

function walkFlips ::
  "ReversiBoard \<Rightarrow> int \<Rightarrow> int \<times> int \<Rightarrow> int \<times> int \<times> (int \<times> int) list
     \<Rightarrow> error + int \<times> int \<times> (int \<times> int) list" where
  "walkFlips b player (dx, dy) (nx, ny, flips) =
     (if inBounds b nx ny then
        (case cell_at b nx ny of
           Inl e \<Rightarrow> Inl e
         | Inr v \<Rightarrow>
             if v = Some (- player) then
               (if dx = 0 \<and> dy = 0 then Inl Diverges
                else walkFlips b player (dx, dy) (nx + dx, ny + dy, flips @ [(nx, ny)]))
             else Inr (nx, ny, flips))
      else Inr (nx, ny, flips))"
  by pat_completeness auto
termination
  by (relation "measure (\<lambda>(b, player, (dx, dy), (nx, ny, f)).
        if dx > 0 then nat (size_b b - nx)
        else if dx < 0 then nat (nx + 1)
        else if dy > 0 then nat (size_b b - ny)
        else nat (ny + 1))")
     (auto simp: inBounds_def)

declare walkFlips.simps [simp del]

text \<open>\<open>for (const [fx, fy] of flips) this.board[fy][fx] = player\<close>.\<close>

fun flipAll :: "ReversiBoard \<Rightarrow> int \<Rightarrow> (int \<times> int) list \<Rightarrow> error + ReversiBoard" where
  "flipAll b player [] = Inr b"
| "flipAll b player ((fx, fy) # fs) =
     (case set_cell b fx fy player of Inl e \<Rightarrow> Inl e | Inr b' \<Rightarrow> flipAll b' player fs)"

text \<open>One pass of the \<open>for\<close> loop of \<open>applyMove\<close>, and the loop.\<close>

definition flipDir :: "ReversiBoard \<Rightarrow> int \<Rightarrow> int \<Rightarrow> int \<Rightarrow> int \<times> int \<Rightarrow> error + ReversiBoard" where
  "flipDir b x y player d =
     (case walkFlips b player d (x + fst d, y + snd d, []) of
        Inl e \<Rightarrow> Inl e
      | Inr (nx, ny, flips) \<Rightarrow>
          if inBounds b nx ny then
            (case cell_at b nx ny of
               Inl e \<Rightarrow> Inl e
             | Inr v \<Rightarrow> if v = Some player then flipAll b player flips else Inr b)
          else Inr b)"

fun flipDirs ::
  "ReversiBoard \<Rightarrow> int \<Rightarrow> int \<Rightarrow> int \<Rightarrow> (int \<times> int) list \<Rightarrow> error + ReversiBoard" where
  "flipDirs b x y player [] = Inr b"
| "flipDirs b x y player (d # ds) =
     (case flipDir b x y player d of Inl e \<Rightarrow> Inl e | Inr b' \<Rightarrow> flipDirs b' x y player ds)"

text \<open>\<open>applyMove\<close> returns its boolean and the board as the call leaves it. A fault ends
  the call; nothing in the program catches it.\<close>

definition applyMove ::
  "ReversiBoard \<Rightarrow> int \<Rightarrow> int \<Rightarrow> int \<Rightarrow> error + bool \<times> ReversiBoard" where
  "applyMove b x y player =
     (case isValidMove b x y player of
        Inl e \<Rightarrow> Inl e
      | Inr ok \<Rightarrow>
          if \<not> ok then Inr (False, b)
          else
            (case set_cell b x y player of
               Inl e \<Rightarrow> Inl e
             | Inr b1 \<Rightarrow>
                 (case flipDirs b1 x y player directions of
                    Inl e \<Rightarrow> Inl e
                  | Inr b2 \<Rightarrow> Inr (True, switchPlayer b2))))"

definition isGameOver :: "ReversiBoard \<Rightarrow> error + bool" where
  "isGameOver b =
     (case getValidMoves b 1 of
        Inl e \<Rightarrow> Inl e
      | Inr m1 \<Rightarrow>
          if length m1 = 0 then
            (case getValidMoves b (-1) of
               Inl e \<Rightarrow> Inl e
             | Inr m2 \<Rightarrow> Inr (length m2 = 0))
          else Inr False)"

text \<open>\<open>countStones\<close> returns \<open>(black, white)\<close>.\<close>

definition countStones :: "ReversiBoard \<Rightarrow> int \<times> int" where
  "countStones b =
     (int (length (filter (\<lambda>cell. cell = 1) (concat (board b)))),
      int (length (filter (\<lambda>cell. cell = -1) (concat (board b)))))"

section \<open>The move selector \<open>ReversiAI\<close>\<close>

datatype Strategy = Random | Greedy | Minimax

record ReversiAI =
  strategy :: Strategy
  maxDepth :: int

text \<open>Scores are numbers that start at \<open>-Infinity\<close> or \<open>Infinity\<close>.\<close>

datatype number = NegInfinity | Fin int | PosInfinity

fun gt :: "number \<Rightarrow> number \<Rightarrow> bool" where
  "gt (Fin a) (Fin b) = (a > b)"
| "gt (Fin a) NegInfinity = True"
| "gt (Fin a) PosInfinity = False"
| "gt PosInfinity (Fin b) = True"
| "gt PosInfinity NegInfinity = True"
| "gt PosInfinity PosInfinity = False"
| "gt NegInfinity b = False"

definition lt :: "number \<Rightarrow> number \<Rightarrow> bool" where
  "lt a b = gt b a"

text \<open>\<open>moves[0]\<close>: \<open>None\<close> is \<open>undefined\<close>.\<close>

definition first_move :: "(int \<times> int) list \<Rightarrow> (int \<times> int) option" where
  "first_move moves = (case moves of [] \<Rightarrow> None | m # _ \<Rightarrow> Some m)"

text \<open>\<open>player === 1 ? black - white : white - black\<close>.\<close>

definition stoneDiff :: "ReversiBoard \<Rightarrow> int \<Rightarrow> int" where
  "stoneDiff b player =
     (case countStones b of (black, white) \<Rightarrow>
        if player = 1 then black - white else white - black)"

definition corners :: "ReversiBoard \<Rightarrow> (int \<times> int) list" where
  "corners b =
     [(0, 0), (0, size_b b - 1), (size_b b - 1, 0), (size_b b - 1, size_b b - 1)]"

text \<open>The \<open>for\<close> loop of \<open>evaluate\<close> over the corners, on the state \<open>cornerScore\<close>.\<close>

fun cornerLoop :: "ReversiBoard \<Rightarrow> int \<Rightarrow> int \<Rightarrow> (int \<times> int) list \<Rightarrow> error + int" where
  "cornerLoop b player cornerScore [] = Inr cornerScore"
| "cornerLoop b player cornerScore ((x, y) # cs) =
     (case cell_at b x y of
        Inl e \<Rightarrow> Inl e
      | Inr v \<Rightarrow>
          let s1 = (if v = Some player then cornerScore + 5 else cornerScore);
              s2 = (if v = Some (- player) then s1 - 5 else s1)
          in cornerLoop b player s2 cs)"

definition cornerScore :: "ReversiBoard \<Rightarrow> int \<Rightarrow> error + int" where
  "cornerScore b player = cornerLoop b player 0 (corners b)"

definition evaluate :: "ReversiBoard \<Rightarrow> int \<Rightarrow> error + int" where
  "evaluate b player =
     (case cornerScore b player of
        Inl e \<Rightarrow> Inl e
      | Inr c \<Rightarrow> Inr (stoneDiff b player * 1 + c))"

text \<open>\<open>Math.floor(Math.random() * moves.length)\<close>, the random number \<open>r\<close> in \<open>[0, 1)\<close>
  being a parameter.\<close>

definition chooseRandom :: "real \<Rightarrow> (int \<times> int) list \<Rightarrow> (int \<times> int) option" where
  "chooseRandom r moves =
     (let idx = \<lfloor>r * real (length moves)\<rfloor> in
      if 0 \<le> idx \<and> idx < int (length moves) then Some (moves ! nat idx) else None)"

text \<open>The \<open>for\<close> loop of \<open>chooseGreedy\<close>, on the state \<open>(bestMove, bestScore)\<close>.\<close>

fun greedyLoop ::
  "ReversiBoard \<Rightarrow> int \<Rightarrow> (int \<times> int) option \<times> number \<Rightarrow> (int \<times> int) list
     \<Rightarrow> error + (int \<times> int) option" where
  "greedyLoop b player (bestMove, bestScore) [] = Inr bestMove"
| "greedyLoop b player (bestMove, bestScore) ((x, y) # ms) =
     (case clone b of
        Inl e \<Rightarrow> Inl e
      | Inr tmp \<Rightarrow>
          (case applyMove tmp x y player of
             Inl e \<Rightarrow> Inl e
           | Inr (_, tmp') \<Rightarrow>
               let score = stoneDiff tmp' player in
               if gt (Fin score) bestScore
               then greedyLoop b player (Some (x, y), Fin score) ms
               else greedyLoop b player (bestMove, bestScore) ms))"

definition chooseGreedy ::
  "ReversiBoard \<Rightarrow> int \<Rightarrow> (int \<times> int) list \<Rightarrow> error + (int \<times> int) option" where
  "chooseGreedy b player moves = greedyLoop b player (first_move moves, NegInfinity) moves"

text \<open>
  \<open>minimax\<close> calls itself with \<open>depth - 1\<close> and stops at \<open>depth === 0\<close> or at the end of the
  game; started below zero it need not stop. The first argument bounds the nesting of
  calls: \<open>None\<close> means that the call did not return within that many nested calls.

  The two \<open>for\<close> loops take the values of the children in order; a child that faults or
  does not return ends the loop.
\<close>

fun maxLoop :: "number \<Rightarrow> (error + number) option list \<Rightarrow> (error + number) option" where
  "maxLoop maxEval [] = Some (Inr maxEval)"
| "maxLoop maxEval (None # cs) = None"
| "maxLoop maxEval (Some (Inl e) # cs) = Some (Inl e)"
| "maxLoop maxEval (Some (Inr evalScore) # cs) =
     maxLoop (if gt evalScore maxEval then evalScore else maxEval) cs"

fun minLoop :: "number \<Rightarrow> (error + number) option list \<Rightarrow> (error + number) option" where
  "minLoop minEval [] = Some (Inr minEval)"
| "minLoop minEval (None # cs) = None"
| "minLoop minEval (Some (Inl e) # cs) = Some (Inl e)"
| "minLoop minEval (Some (Inr evalScore) # cs) =
     minLoop (if lt evalScore minEval then evalScore else minEval) cs"

definition evaluateNum :: "ReversiBoard \<Rightarrow> int \<Rightarrow> error + number" where
  "evaluateNum b player = (case evaluate b player of Inl e \<Rightarrow> Inl e | Inr v \<Rightarrow> Inr (Fin v))"

fun minimax :: "nat \<Rightarrow> ReversiBoard \<Rightarrow> int \<Rightarrow> int \<Rightarrow> int \<Rightarrow> (error + number) option" where
  "minimax 0 b depth curPlayer maximizingPlayer = None"
| "minimax (Suc fuel) b depth curPlayer maximizingPlayer =
     (if depth = 0 then Some (evaluateNum b maximizingPlayer)
      else
        case isGameOver b of
          Inl e \<Rightarrow> Some (Inl e)
        | Inr True \<Rightarrow> Some (evaluateNum b maximizingPlayer)
        | Inr False \<Rightarrow>
            (case getValidMoves b curPlayer of
               Inl e \<Rightarrow> Some (Inl e)
             | Inr moves \<Rightarrow>
                 if length moves = 0
                 then minimax fuel b (depth - 1) (- curPlayer) maximizingPlayer
                 else
                   let children =
                     map (\<lambda>(x, y).
                       case clone b of
                         Inl e \<Rightarrow> Some (Inl e)
                       | Inr tmp \<Rightarrow>
                           (case applyMove tmp x y curPlayer of
                              Inl e \<Rightarrow> Some (Inl e)
                            | Inr (_, tmp') \<Rightarrow>
                                minimax fuel tmp' (depth - 1) (- curPlayer)
                                  maximizingPlayer)) moves
                   in if curPlayer = maximizingPlayer
                      then maxLoop NegInfinity children
                      else minLoop PosInfinity children))"

declare minimax.simps [simp del]

text \<open>The \<open>for\<close> loop of \<open>chooseMinimax\<close>, on the state \<open>(bestMove, bestScore)\<close>.\<close>

fun minimaxLoop ::
  "nat \<Rightarrow> int \<Rightarrow> ReversiBoard \<Rightarrow> int \<Rightarrow> (int \<times> int) option \<times> number \<Rightarrow> (int \<times> int) list
     \<Rightarrow> (error + (int \<times> int) option) option" where
  "minimaxLoop fuel md b player (bestMove, bestScore) [] = Some (Inr bestMove)"
| "minimaxLoop fuel md b player (bestMove, bestScore) ((x, y) # ms) =
     (case clone b of
        Inl e \<Rightarrow> Some (Inl e)
      | Inr tmp \<Rightarrow>
          (case applyMove tmp x y player of
             Inl e \<Rightarrow> Some (Inl e)
           | Inr (_, tmp') \<Rightarrow>
               (case minimax fuel tmp' (md - 1) (- player) player of
                  None \<Rightarrow> None
                | Some (Inl e) \<Rightarrow> Some (Inl e)
                | Some (Inr score) \<Rightarrow>
                    if gt score bestScore
                    then minimaxLoop fuel md b player (Some (x, y), score) ms
                    else minimaxLoop fuel md b player (bestMove, bestScore) ms)))"

definition chooseMinimax ::
  "nat \<Rightarrow> ReversiAI \<Rightarrow> ReversiBoard \<Rightarrow> int \<Rightarrow> (int \<times> int) list
     \<Rightarrow> (error + (int \<times> int) option) option" where
  "chooseMinimax fuel ai b player moves =
     minimaxLoop fuel (maxDepth ai) b player (first_move moves, NegInfinity) moves"

text \<open>\<open>getBestMove\<close>: \<open>None\<close> in the result is \<open>null\<close>.\<close>

definition getBestMove ::
  "nat \<Rightarrow> real \<Rightarrow> ReversiAI \<Rightarrow> ReversiBoard \<Rightarrow> int \<Rightarrow> (error + (int \<times> int) option) option" where
  "getBestMove fuel r ai b player =
     (case getValidMoves b player of
        Inl e \<Rightarrow> Some (Inl e)
      | Inr moves \<Rightarrow>
          if length moves = 0 then Some (Inr None)
          else
            (case strategy ai of
               Random \<Rightarrow> Some (Inr (chooseRandom r moves))
             | Greedy \<Rightarrow> Some (chooseGreedy b player moves)
             | Minimax \<Rightarrow> chooseMinimax fuel ai b player moves))"

section \<open>Boards as objects in a store\<close>

text \<open>
  Whether \<open>clone\<close> copies deeply is a question about sharing, so here the row arrays live
  in a store: a reference is an index into the list of all row arrays allocated so far,
  and an allocation appends to it. A board object holds its size, the references of its
  rows (the outer array, which the program never writes after building it) and the turn
  flag. Reads go through \<open>view\<close>, the grid an object shows in a store.
\<close>

type_synonym store = "int list list"

record BoardObj =
  o_size :: int
  o_board :: "nat list"
  o_currentPlayer :: int

definition view :: "store \<Rightarrow> BoardObj \<Rightarrow> ReversiBoard" where
  "view h ob =
     \<lparr>size_b = o_size ob, board = map (\<lambda>r. h ! r) (o_board ob),
      currentPlayer = o_currentPlayer ob\<rparr>"

text \<open>\<open>this.board[y][x] = v\<close> writes into the row array that \<open>this.board[y]\<close> refers to.\<close>

definition h_set_cell :: "store \<Rightarrow> BoardObj \<Rightarrow> int \<Rightarrow> int \<Rightarrow> int \<Rightarrow> error + store" where
  "h_set_cell h ob x y v =
     (if 0 \<le> y \<and> y < int (length (o_board ob)) then
        let r = o_board ob ! nat y; row = h ! r in
        if 0 \<le> x \<and> x < int (length row) then Inr (h[r := row[nat x := v]])
        else Inl SparseWrite
      else Inl TypeError)"

definition h_init :: "store \<Rightarrow> BoardObj \<Rightarrow> error + store" where
  "h_init h ob =
     (if o_size ob mod 2 \<noteq> 0 then Inl TypeError
      else
        let mid = o_size ob div 2 in
        (case h_set_cell h ob (mid - 1) (mid - 1) (-1) of
           Inl e \<Rightarrow> Inl e
         | Inr h1 \<Rightarrow>
             (case h_set_cell h1 ob mid mid (-1) of
                Inl e \<Rightarrow> Inl e
              | Inr h2 \<Rightarrow>
                  (case h_set_cell h2 ob mid (mid - 1) 1 of
                     Inl e \<Rightarrow> Inl e
                   | Inr h3 \<Rightarrow> h_set_cell h3 ob (mid - 1) mid 1))))"

text \<open>The constructor allocates \<open>size\<close> new rows of zeros.\<close>

definition h_new :: "store \<Rightarrow> int \<Rightarrow> error + store \<times> BoardObj" where
  "h_new h n =
     (let h1 = h @ replicate (nat n) (replicate (nat n) 0);
          ob = \<lparr>o_size = n, o_board = [length h ..< length h + nat n], o_currentPlayer = 1\<rparr>
      in case h_init h1 ob of Inl e \<Rightarrow> Inl e | Inr h2 \<Rightarrow> Inr (h2, ob))"

text \<open>\<open>clone\<close>: \<open>this.board.map(row => [...row])\<close> allocates a new row array for every row
  of \<open>this\<close>, with the same cells.\<close>

definition h_clone :: "store \<Rightarrow> BoardObj \<Rightarrow> error + store \<times> BoardObj" where
  "h_clone h ob =
     (case h_new h (o_size ob) of
        Inl e \<Rightarrow> Inl e
      | Inr (h1, copy) \<Rightarrow>
          Inr (h1 @ map (\<lambda>r. h1 ! r) (o_board ob),
               copy\<lparr>o_board := [length h1 ..< length h1 + length (o_board ob)],
                    o_currentPlayer := o_currentPlayer ob\<rparr>))"

fun h_flipAll :: "store \<Rightarrow> BoardObj \<Rightarrow> int \<Rightarrow> (int \<times> int) list \<Rightarrow> error + store" where
  "h_flipAll h ob player [] = Inr h"
| "h_flipAll h ob player ((fx, fy) # fs) =
     (case h_set_cell h ob fx fy player of
        Inl e \<Rightarrow> Inl e
      | Inr h' \<Rightarrow> h_flipAll h' ob player fs)"

definition h_flipDir ::
  "store \<Rightarrow> BoardObj \<Rightarrow> int \<Rightarrow> int \<Rightarrow> int \<Rightarrow> int \<times> int \<Rightarrow> error + store" where
  "h_flipDir h ob x y player d =
     (case walkFlips (view h ob) player d (x + fst d, y + snd d, []) of
        Inl e \<Rightarrow> Inl e
      | Inr (nx, ny, flips) \<Rightarrow>
          if inBounds (view h ob) nx ny then
            (case cell_at (view h ob) nx ny of
               Inl e \<Rightarrow> Inl e
             | Inr v \<Rightarrow> if v = Some player then h_flipAll h ob player flips else Inr h)
          else Inr h)"

fun h_flipDirs ::
  "store \<Rightarrow> BoardObj \<Rightarrow> int \<Rightarrow> int \<Rightarrow> int \<Rightarrow> (int \<times> int) list \<Rightarrow> error + store" where
  "h_flipDirs h ob x y player [] = Inr h"
| "h_flipDirs h ob x y player (d # ds) =
     (case h_flipDir h ob x y player d of
        Inl e \<Rightarrow> Inl e
      | Inr h' \<Rightarrow> h_flipDirs h' ob x y player ds)"

definition h_applyMove ::
  "store \<Rightarrow> BoardObj \<Rightarrow> int \<Rightarrow> int \<Rightarrow> int \<Rightarrow> error + bool \<times> store \<times> BoardObj" where
  "h_applyMove h ob x y player =
     (case isValidMove (view h ob) x y player of
        Inl e \<Rightarrow> Inl e
      | Inr ok \<Rightarrow>
          if \<not> ok then Inr (False, h, ob)
          else
            (case h_set_cell h ob x y player of
               Inl e \<Rightarrow> Inl e
             | Inr h1 \<Rightarrow>
                 (case h_flipDirs h1 ob x y player directions of
                    Inl e \<Rightarrow> Inl e
                  | Inr h2 \<Rightarrow>
                      Inr (True, h2, ob\<lparr>o_currentPlayer := - o_currentPlayer ob\<rparr>))))"

text \<open>A sequence of moves \<open>(x, y, player)\<close>, applied one after the other.\<close>

fun h_applyMoves ::
  "store \<Rightarrow> BoardObj \<Rightarrow> (int \<times> int \<times> int) list \<Rightarrow> error + store \<times> BoardObj" where
  "h_applyMoves h ob [] = Inr (h, ob)"
| "h_applyMoves h ob ((x, y, player) # ms) =
     (case h_applyMove h ob x y player of
        Inl e \<Rightarrow> Inl e
      | Inr (_, h', ob') \<Rightarrow> h_applyMoves h' ob' ms)"

fun applyMoves :: "ReversiBoard \<Rightarrow> (int \<times> int \<times> int) list \<Rightarrow> error + ReversiBoard" where
  "applyMoves b [] = Inr b"
| "applyMoves b ((x, y, player) # ms) =
     (case applyMove b x y player of
        Inl e \<Rightarrow> Inl e
      | Inr (_, b') \<Rightarrow> applyMoves b' ms)"

section \<open>Well-formed boards and objects\<close>

text \<open>A well-formed board is a \<open>size \<times> size\<close> grid, as the constructor builds it and
  every operation keeps it.\<close>

definition wf_board :: "ReversiBoard \<Rightarrow> bool" where
  "wf_board b \<longleftrightarrow>
     int (length (board b)) = size_b b \<and> (\<forall>r \<in> set (board b). int (length r) = size_b b)"

text \<open>A board of a shape the constructor can build.\<close>

definition playable :: "ReversiBoard \<Rightarrow> bool" where
  "playable b \<longleftrightarrow> wf_board b \<and> size_b b mod 2 = 0 \<and> 2 \<le> size_b b"

text \<open>An object of the store: its rows are allocated and are different arrays.\<close>

definition wf_obj :: "store \<Rightarrow> BoardObj \<Rightarrow> bool" where
  "wf_obj h ob \<longleftrightarrow> distinct (o_board ob) \<and> (\<forall>r \<in> set (o_board ob). r < length h)"

text \<open>Two objects that share no row array.\<close>

definition separate :: "BoardObj \<Rightarrow> BoardObj \<Rightarrow> bool" where
  "separate ob ob' \<longleftrightarrow> set (o_board ob) \<inter> set (o_board ob') = {}"

text \<open>A step of the store that writes only into rows of \<open>ob\<close>.\<close>

definition frame :: "BoardObj \<Rightarrow> store \<Rightarrow> store \<Rightarrow> bool" where
  "frame ob h h' \<longleftrightarrow>
     length h' = length h \<and> (\<forall>r < length h. r \<notin> set (o_board ob) \<longrightarrow> h' ! r = h ! r)"

section \<open>The rule of the game, in the words of the specification\<close>

text \<open>A cell on the grid that holds a stone of the opponent of \<open>p\<close>, or one of \<open>p\<close>.\<close>

definition opp_cell :: "ReversiBoard \<Rightarrow> int \<Rightarrow> int \<Rightarrow> int \<Rightarrow> bool" where
  "opp_cell b p x y \<longleftrightarrow> inBounds b x y \<and> cell_at b x y = Inr (Some (- p))"

definition own_cell :: "ReversiBoard \<Rightarrow> int \<Rightarrow> int \<Rightarrow> int \<Rightarrow> bool" where
  "own_cell b p x y \<longleftrightarrow> inBounds b x y \<and> cell_at b x y = Inr (Some p)"

text \<open>In direction \<open>d\<close> from \<open>(x, y)\<close>, the \<open>k \<ge> 1\<close> cells next to \<open>(x, y)\<close> hold opposing
  stones and the cell after them holds a stone of \<open>p\<close>.\<close>

definition outflanks :: "ReversiBoard \<Rightarrow> int \<Rightarrow> int \<Rightarrow> int \<Rightarrow> int \<times> int \<Rightarrow> nat \<Rightarrow> bool" where
  "outflanks b x y p d k \<longleftrightarrow>
     1 \<le> k
     \<and> (\<forall>i \<in> {1..k}. opp_cell b p (x + int i * fst d) (y + int i * snd d))
     \<and> own_cell b p (x + int (k + 1) * fst d) (y + int (k + 1) * snd d)"

definition legal_by_rule :: "ReversiBoard \<Rightarrow> int \<Rightarrow> int \<Rightarrow> int \<Rightarrow> bool" where
  "legal_by_rule b x y p \<longleftrightarrow>
     cell_at b x y = Inr (Some 0) \<and> (\<exists>d \<in> set directions. \<exists>k. outflanks b x y p d k)"

section \<open>Stone counts and the corner term\<close>

text \<open>The number of cells of the grid that hold \<open>a\<close>.\<close>

definition countCells :: "ReversiBoard \<Rightarrow> int \<Rightarrow> int" where
  "countCells b a = int (length (filter (\<lambda>cell. cell = a) (concat (board b))))"

text \<open>The stones of player \<open>p\<close> and the stones on the board, from \<open>countStones\<close>.\<close>

definition stonesOf :: "ReversiBoard \<Rightarrow> int \<Rightarrow> int" where
  "stonesOf b p = (case countStones b of (black, white) \<Rightarrow> if p = 1 then black else white)"

definition totalStones :: "ReversiBoard \<Rightarrow> int" where
  "totalStones b = (case countStones b of (black, white) \<Rightarrow> black + white)"

text \<open>A cell that holds a stone of \<open>p\<close> or of the opponent of \<open>p\<close>.\<close>

definition turnable :: "ReversiBoard \<Rightarrow> int \<Rightarrow> int \<times> int \<Rightarrow> bool" where
  "turnable b p c \<longleftrightarrow> cell_at b (fst c) (snd c) = Inr (Some p)
     \<or> cell_at b (fst c) (snd c) = Inr (Some (- p))"

text \<open>The corner term of \<open>evaluate\<close> is zero on the successor of every move of the list.\<close>

definition cornerTermZero :: "ReversiBoard \<Rightarrow> int \<Rightarrow> (int \<times> int) list \<Rightarrow> bool" where
  "cornerTermZero b p moves \<longleftrightarrow>
     (\<forall>(x, y) \<in> set moves.
        case clone b of
          Inl e \<Rightarrow> True
        | Inr tmp \<Rightarrow>
            (case applyMove tmp x y p of
               Inl e \<Rightarrow> True
             | Inr (_, tmp') \<Rightarrow> cornerScore tmp' p = Inr 0))"

section \<open>Boards used as instances\<close>

text \<open>The board \<open>new ReversiBoard(4)\<close> and two of its successors.\<close>

definition board4 :: ReversiBoard where
  "board4 = \<lparr>size_b = 4,
     board = [[0, 0, 0, 0], [0, -1, 1, 0], [0, 1, -1, 0], [0, 0, 0, 0]],
     currentPlayer = 1\<rparr>"

definition board4_white :: ReversiBoard where
  "board4_white = \<lparr>size_b = 4,
     board = [[0, 0, -1, 0], [0, -1, -1, 0], [0, 1, -1, 0], [0, 0, 0, 0]],
     currentPlayer = -1\<rparr>"

definition board4_black :: ReversiBoard where
  "board4_black = \<lparr>size_b = 4,
     board = [[0, 1, 0, 0], [0, 1, 1, 0], [0, 1, -1, 0], [0, 0, 0, 0]],
     currentPlayer = -1\<rparr>"

text \<open>A board without stones, and a full one.\<close>

definition empty4 :: ReversiBoard where
  "empty4 = \<lparr>size_b = 4,
     board = [[0, 0, 0, 0], [0, 0, 0, 0], [0, 0, 0, 0], [0, 0, 0, 0]],
     currentPlayer = 1\<rparr>"

definition full2 :: ReversiBoard where
  "full2 = \<lparr>size_b = 2, board = [[- 1, 1], [1, - 1]], currentPlayer = 1\<rparr>"

text \<open>A board with a stone of player \<open>1\<close> on a corner.\<close>

definition corner4 :: ReversiBoard where
  "corner4 = \<lparr>size_b = 4,
     board = [[1, 0, 0, 0], [0, -1, 1, 0], [0, 1, -1, 0], [0, 0, 0, 0]],
     currentPlayer = 1\<rparr>"

text \<open>A board on which the second legal move of player \<open>1\<close> turns the most stones.\<close>

definition scan4 :: ReversiBoard where
  "scan4 = \<lparr>size_b = 4,
     board = [[0, 1, 0, 0], [1, -1, 0, 0], [0, -1, 0, 0], [0, 0, 0, 0]],
     currentPlayer = 1\<rparr>"

text \<open>A board on which player \<open>-1\<close> has no move and player \<open>1\<close> has one.\<close>

definition pass4 :: ReversiBoard where
  "pass4 = \<lparr>size_b = 4,
     board = [[1, -1, 0, 0], [0, 0, 0, 0], [0, 0, 0, 0], [0, 0, 0, 0]],
     currentPlayer = - 1\<rparr>"

text \<open>The starting board of size 4 as an object in a store.\<close>

definition store4 :: store where
  "store4 = [[0, 0, 0, 0], [0, -1, 1, 0], [0, 1, -1, 0], [0, 0, 0, 0]]"

definition obj4 :: BoardObj where
  "obj4 = \<lparr>o_size = 4, o_board = [0, 1, 2, 3], o_currentPlayer = 1\<rparr>"

text \<open>The store after cloning \<open>obj4\<close>, and after a move on \<open>obj4\<close>.\<close>

definition store4_cloned :: store where
  "store4_cloned =
     [[0, 0, 0, 0], [0, -1, 1, 0], [0, 1, -1, 0], [0, 0, 0, 0],
      [0, 0, 0, 0], [0, -1, 1, 0], [0, 1, -1, 0], [0, 0, 0, 0],
      [0, 0, 0, 0], [0, -1, 1, 0], [0, 1, -1, 0], [0, 0, 0, 0]]"

definition obj4_clone :: BoardObj where
  "obj4_clone = \<lparr>o_size = 4, o_board = [8, 9, 10, 11], o_currentPlayer = 1\<rparr>"

definition store4_moved :: store where
  "store4_moved =
     [[0, 1, 0, 0], [0, 1, 1, 0], [0, 1, -1, 0], [0, 0, 0, 0],
      [0, 0, 0, 0], [0, -1, 1, 0], [0, 1, -1, 0], [0, 0, 0, 0],
      [0, 0, 0, 0], [0, -1, 1, 0], [0, 1, -1, 0], [0, 0, 0, 0]]"

definition obj4_moved :: BoardObj where
  "obj4_moved = \<lparr>o_size = 4, o_board = [0, 1, 2, 3], o_currentPlayer = - 1\<rparr>"

section \<open>Reading and writing cells\<close>

lemma new_board4: "new_ReversiBoard 4 = Inr board4"
  by code_simp

lemma wf_board4: "wf_board board4"
  by (simp add: wf_board_def board4_def)

lemma cell_at_wf:
  assumes "wf_board b" "inBounds b x y"
  shows "cell_at b x y = Inr (Some (board b ! nat y ! nat x))"
proof -
  from assms have y: "0 \<le> y" "y < int (length (board b))"
    by (auto simp: wf_board_def inBounds_def)
  then have "board b ! nat y \<in> set (board b)" by simp
  with assms have "int (length (board b ! nat y)) = size_b b"
    by (simp add: wf_board_def)
  with assms y show ?thesis
    by (simp add: cell_at_def row_at_def inBounds_def)
qed

lemma set_cell_currentPlayer:
  "set_cell b x y v = Inr b' \<Longrightarrow> currentPlayer b' = currentPlayer b"
  by (auto simp: set_cell_def split: option.splits if_splits)

lemma set_cell_size:
  "set_cell b x y v = Inr b' \<Longrightarrow> size_b b' = size_b b"
  by (auto simp: set_cell_def split: option.splits if_splits)

section \<open>The turn flag\<close>

lemma flipAll_currentPlayer:
  "flipAll b p fs = Inr b' \<Longrightarrow> currentPlayer b' = currentPlayer b"
proof (induction fs arbitrary: b)
  case Nil
  then show ?case by simp
next
  case (Cons f fs)
  obtain fx fy where f: "f = (fx, fy)" by (cases f)
  from Cons.prems obtain b1 where b1: "set_cell b fx fy p = Inr b1" "flipAll b1 p fs = Inr b'"
    by (auto simp: f split: sum.splits)
  then show ?case using Cons.IH [of b1] set_cell_currentPlayer [of b fx fy p b1] by simp
qed

lemma flipDir_currentPlayer:
  "flipDir b x y p d = Inr b' \<Longrightarrow> currentPlayer b' = currentPlayer b"
  by (auto simp: flipDir_def split: sum.splits if_splits dest: flipAll_currentPlayer)

lemma flipDirs_currentPlayer:
  "flipDirs b x y p ds = Inr b' \<Longrightarrow> currentPlayer b' = currentPlayer b"
proof (induction ds arbitrary: b)
  case Nil
  then show ?case by simp
next
  case (Cons d ds)
  from Cons.prems obtain b1 where "flipDir b x y p d = Inr b1" "flipDirs b1 x y p ds = Inr b'"
    by (auto split: sum.splits)
  then show ?case using Cons.IH [of b1] flipDir_currentPlayer [of b x y p d b1] by simp
qed

lemma applyMove_board4_white: "applyMove board4 2 0 (- 1) = Inr (True, board4_white)"
  by code_simp

lemma applyMove_board4_black: "applyMove board4 1 0 1 = Inr (True, board4_black)"
  by code_simp

text \<open>
  Claim C1, as the code has it: an accepted \<open>applyMove(x, y, p)\<close> negates the turn flag
  \<open>currentPlayer\<close> the board held before the call (\<open>switchPlayer\<close>); the flag is the
  opponent of \<open>p\<close> afterwards when it held \<open>p\<close> before.
\<close>

theorem applyMove_accepted_negates_currentPlayer:
  assumes "applyMove b x y p = Inr (True, b')"
  shows "currentPlayer b' = - currentPlayer b
    \<and> (currentPlayer b = p \<longrightarrow> currentPlayer b' = - p)"
proof -
  from assms obtain b1 b2 where
    b1: "set_cell b x y p = Inr b1" and b2: "flipDirs b1 x y p directions = Inr b2"
    and b': "b' = switchPlayer b2"
    by (auto simp: applyMove_def split: sum.splits if_splits)
  from b1 b2 have "currentPlayer b2 = currentPlayer b"
    using set_cell_currentPlayer flipDirs_currentPlayer by metis
  with b' show ?thesis by (simp add: switchPlayer_def)
qed

theorem applyMove_accepted_negates_currentPlayer_witness:
  "applyMove board4 1 0 1 = Inr (True, board4_black)
   \<and> currentPlayer board4 = 1
   \<and> currentPlayer board4_black = - currentPlayer board4
   \<and> currentPlayer board4_black = - 1"
proof -
  have cp: "currentPlayer board4 = 1"
    by (simp add: board4_def)
  from applyMove_accepted_negates_currentPlayer [OF applyMove_board4_black] cp
    applyMove_board4_black
  show ?thesis by simp
qed

text \<open>
  Claim C1, as the specification states it, fails: on the starting board of size 4, whose
  flag is \<open>1\<close>, the move \<open>(2, 0)\<close> of player \<open>-1\<close> is accepted and leaves the flag at \<open>-1\<close>,
  which is the mover and not the mover's opponent.
\<close>

theorem applyMove_currentPlayer_counterexample:
  "applyMove board4 2 0 (- 1) = Inr (True, board4_white)
   \<and> currentPlayer board4_white \<noteq> - (- 1)"
  by (simp add: applyMove_board4_white board4_white_def)

section \<open>The walks along a direction\<close>

lemma directions_nonzero: "(dx, dy) \<in> set directions \<Longrightarrow> \<not> (dx = 0 \<and> dy = 0)"
  by (auto simp: directions_def)

lemma walkValid_run:
  assumes "wf_board b" "\<not> (dx = 0 \<and> dy = 0)"
  shows "\<exists>n. (\<forall>i<n. opp_cell b p (nx + int i * dx) (ny + int i * dy))
           \<and> \<not> opp_cell b p (nx + int n * dx) (ny + int n * dy)
           \<and> walkValid b p (dx, dy) (nx, ny, f)
               = Inr (nx + int n * dx, ny + int n * dy, f \<or> 0 < n)"
  using assms
proof (induction b p "(dx, dy)" "(nx, ny, f)" arbitrary: nx ny f rule: walkValid.induct)
  case (1 b player nx ny f)
  show ?case
  proof (cases "opp_cell b player nx ny")
    case False
    then have "walkValid b player (dx, dy) (nx, ny, f) = Inr (nx, ny, f)"
      using cell_at_wf [OF "1.prems"(1), of nx ny]
      by (auto simp: walkValid.simps opp_cell_def)
    with False show ?thesis
      by (intro exI [of _ 0]) simp
  next
    case True
    then have inb: "inBounds b nx ny" and c: "cell_at b nx ny = Inr (Some (- player))"
      by (simp_all add: opp_cell_def)
    from "1.hyps" [OF inb c refl _ "1.prems"] "1.prems"(2)
    obtain n where n: "\<forall>i<n. opp_cell b player (nx + dx + int i * dx) (ny + dy + int i * dy)"
      "\<not> opp_cell b player (nx + dx + int n * dx) (ny + dy + int n * dy)"
      "walkValid b player (dx, dy) (nx + dx, ny + dy, True)
         = Inr (nx + dx + int n * dx, ny + dy + int n * dy, True)"
      by auto
    have "\<forall>i<Suc n. opp_cell b player (nx + int i * dx) (ny + int i * dy)"
    proof (intro allI impI)
      fix i assume "i < Suc n"
      show "opp_cell b player (nx + int i * dx) (ny + int i * dy)"
      proof (cases i)
        case 0
        with True show ?thesis by simp
      next
        case (Suc j)
        with \<open>i < Suc n\<close> n(1) have "opp_cell b player (nx + dx + int j * dx) (ny + dy + int j * dy)"
          by simp
        then show ?thesis by (simp add: Suc algebra_simps)
      qed
    qed
    moreover from n(2) have "\<not> opp_cell b player (nx + int (Suc n) * dx) (ny + int (Suc n) * dy)"
      by (simp add: algebra_simps)
    moreover from n(3) inb c "1.prems"(2)
    have "walkValid b player (dx, dy) (nx, ny, f)
            = Inr (nx + int (Suc n) * dx, ny + int (Suc n) * dy, f \<or> 0 < Suc n)"
      by (subst walkValid.simps) (auto simp: algebra_simps)
    ultimately show ?thesis by blast
  qed
qed

lemma walkValid_outflanks:
  assumes wf: "wf_board b" and nz: "\<not> (dx = 0 \<and> dy = 0)" and p: "p \<noteq> 0"
  shows "\<exists>nx ny found. walkValid b p (dx, dy) (x + dx, y + dy, False) = Inr (nx, ny, found)
           \<and> ((found \<and> own_cell b p nx ny) \<longleftrightarrow> (\<exists>k. outflanks b x y p (dx, dy) k))"
proof -
  from walkValid_run [OF wf nz, of p "x + dx" "y + dy" False]
  obtain n where run: "\<forall>i<n. opp_cell b p (x + dx + int i * dx) (y + dy + int i * dy)"
    and stop: "\<not> opp_cell b p (x + dx + int n * dx) (y + dy + int n * dy)"
    and res: "walkValid b p (dx, dy) (x + dx, y + dy, False)
                = Inr (x + dx + int n * dx, y + dy + int n * dy, 0 < n)"
    by auto
  let ?nx = "x + dx + int n * dx" and ?ny = "y + dy + int n * dy"
  have "(0 < n \<and> own_cell b p ?nx ?ny) \<longleftrightarrow> (\<exists>k. outflanks b x y p (dx, dy) k)"
  proof
    assume a: "0 < n \<and> own_cell b p ?nx ?ny"
    have "\<forall>i \<in> {1..n}. opp_cell b p (x + int i * dx) (y + int i * dy)"
    proof
      fix i assume "i \<in> {1..n}"
      then obtain j where j: "i = Suc j" "j < n" by (cases i) auto
      with run have "opp_cell b p (x + dx + int j * dx) (y + dy + int j * dy)" by simp
      then show "opp_cell b p (x + int i * dx) (y + int i * dy)"
        by (simp add: j algebra_simps)
    qed
    with a have "outflanks b x y p (dx, dy) n"
      by (simp add: outflanks_def algebra_simps)
    then show "\<exists>k. outflanks b x y p (dx, dy) k" ..
  next
    assume "\<exists>k. outflanks b x y p (dx, dy) k"
    then obtain k where k: "1 \<le> k"
      "\<forall>i \<in> {1..k}. opp_cell b p (x + int i * dx) (y + int i * dy)"
      "own_cell b p (x + int (k + 1) * dx) (y + int (k + 1) * dy)"
      by (auto simp: outflanks_def)
    have "n = k"
    proof (rule ccontr)
      assume "n \<noteq> k"
      then consider "n < k" | "k < n" by linarith
      then show False
      proof cases
        case 1
        then have "Suc n \<in> {1..k}" by simp
        with k(2) have "opp_cell b p (x + int (Suc n) * dx) (y + int (Suc n) * dy)" by blast
        with stop show False by (simp add: algebra_simps)
      next
        case 2
        with run have "opp_cell b p (x + dx + int k * dx) (y + dy + int k * dy)" by simp
        then have "cell_at b (x + int (k + 1) * dx) (y + int (k + 1) * dy) = Inr (Some (- p))"
          by (simp add: opp_cell_def algebra_simps)
        with k(3) p show False by (simp add: own_cell_def)
      qed
    qed
    with k(1,3) show "0 < n \<and> own_cell b p ?nx ?ny"
      by (simp add: algebra_simps)
  qed
  with res show ?thesis by blast
qed

lemma validDirs_outflanks:
  assumes wf: "wf_board b" and p: "p \<noteq> 0"
  shows "\<forall>d \<in> set ds. \<not> (fst d = 0 \<and> snd d = 0) \<Longrightarrow>
    validDirs b x y p ds = Inr (\<exists>d \<in> set ds. \<exists>k. outflanks b x y p d k)"
proof (induction ds)
  case Nil
  then show ?case by simp
next
  case (Cons d ds)
  obtain dx dy where d: "d = (dx, dy)" by (cases d)
  from Cons.prems have nz: "\<not> (dx = 0 \<and> dy = 0)" by (simp add: d)
  from Cons have IH: "validDirs b x y p ds = Inr (\<exists>d \<in> set ds. \<exists>k. outflanks b x y p d k)"
    by simp
  from walkValid_outflanks [OF wf nz p, of x y]
  obtain nx ny found where
    w: "walkValid b p (dx, dy) (x + dx, y + dy, False) = Inr (nx, ny, found)" and
    q: "(found \<and> own_cell b p nx ny) \<longleftrightarrow> (\<exists>k. outflanks b x y p (dx, dy) k)"
    by blast
  show ?case
  proof (cases "found \<and> inBounds b nx ny")
    case False
    with q have "\<not> (\<exists>k. outflanks b x y p (dx, dy) k)"
      by (auto simp: own_cell_def)
    with False w IH show ?thesis by (auto simp: d)
  next
    case True
    with cell_at_wf [OF wf, of nx ny]
    obtain v where v: "cell_at b nx ny = Inr (Some v)" by simp
    show ?thesis
    proof (cases "v = p")
      case True
      with \<open>found \<and> inBounds b nx ny\<close> v q have "\<exists>k. outflanks b x y p (dx, dy) k"
        by (simp add: own_cell_def)
      with True \<open>found \<and> inBounds b nx ny\<close> v w show ?thesis by (auto simp: d)
    next
      case False
      with v q have "\<not> (\<exists>k. outflanks b x y p (dx, dy) k)"
        by (auto simp: own_cell_def)
      with False \<open>found \<and> inBounds b nx ny\<close> v w IH show ?thesis by (auto simp: d)
    qed
  qed
qed

lemma isValidMove_wf:
  assumes "wf_board b" "inBounds b x y" "p \<noteq> 0"
  shows "isValidMove b x y p = Inr (legal_by_rule b x y p)"
proof -
  have nz: "\<forall>d \<in> set directions. \<not> (fst d = 0 \<and> snd d = 0)"
    by (simp add: directions_def)
  from cell_at_wf [OF assms(1,2)] obtain v where v: "cell_at b x y = Inr (Some v)" by simp
  show ?thesis
    using validDirs_outflanks [OF assms(1,3) nz, of x y] v
    by (simp add: isValidMove_def legal_by_rule_def)
qed

section \<open>Legal moves\<close>

lemma validDirs_total:
  assumes wf: "wf_board b"
  shows "\<forall>d \<in> set ds. \<not> (fst d = 0 \<and> snd d = 0) \<Longrightarrow> \<exists>r. validDirs b x y p ds = Inr r"
proof (induction ds)
  case Nil
  show ?case by (rule exI [of _ False]) simp
next
  case (Cons d ds)
  obtain dx dy where d: "d = (dx, dy)" by (cases d)
  from Cons.prems have nz: "\<not> (dx = 0 \<and> dy = 0)" by (simp add: d)
  from Cons obtain r where IH: "validDirs b x y p ds = Inr r" by auto
  from walkValid_run [OF wf nz, of p "x + dx" "y + dy" False]
  obtain nx ny found where
    w: "walkValid b p (dx, dy) (x + dx, y + dy, False) = Inr (nx, ny, found)"
    by blast
  show ?case
  proof (cases "found \<and> inBounds b nx ny")
    case False
    with w IH show ?thesis by (auto simp: d)
  next
    case True
    with cell_at_wf [OF wf, of nx ny]
    obtain v where v: "cell_at b nx ny = Inr (Some v)" by simp
    with True w IH show ?thesis by (auto simp: d)
  qed
qed

lemma row_at_wf:
  "wf_board b \<Longrightarrow> row_at b y = None \<longleftrightarrow> \<not> (0 \<le> y \<and> y < size_b b)"
  by (auto simp: row_at_def wf_board_def)

lemma isValidMove_total:
  assumes wf: "wf_board b" and y: "0 \<le> y" "y < size_b b"
  shows "\<exists>r. isValidMove b x y p = Inr r"
proof -
  have nz: "\<forall>d \<in> set directions. \<not> (fst d = 0 \<and> snd d = 0)"
    by (simp add: directions_def)
  from row_at_wf [OF wf, of y] y obtain r where "row_at b y = Some r" by auto
  then obtain v where v: "cell_at b x y = Inr v"
    by (simp add: cell_at_def)
  with validDirs_total [OF wf nz, of x y p] show ?thesis
    by (auto simp: isValidMove_def)
qed

lemma isValidMove_outside_row:
  assumes wf: "wf_board b" and y: "\<not> (0 \<le> y \<and> y < size_b b)"
  shows "isValidMove b x y p = Inl TypeError"
  using row_at_wf [OF wf, of y] y by (simp add: isValidMove_def cell_at_def)

lemma isValidMove_outside_column:
  assumes wf: "wf_board b" and y: "0 \<le> y" "y < size_b b" and x: "\<not> (0 \<le> x \<and> x < size_b b)"
  shows "isValidMove b x y p = Inr False"
proof -
  from wf y have "y < int (length (board b))"
    by (simp add: wf_board_def)
  with y have "nat y < length (board b)"
    by linarith
  then have "board b ! nat y \<in> set (board b)"
    by (rule nth_mem)
  with wf have "int (length (board b ! nat y)) = size_b b"
    by (simp add: wf_board_def)
  with wf y x have "cell_at b x y = Inr None"
    by (auto simp: cell_at_def row_at_def wf_board_def)
  then show ?thesis by (simp add: isValidMove_def)
qed

lemma keepValid_subset:
  "keepValid b p cs = Inr ms \<Longrightarrow> set ms \<subseteq> set cs"
proof (induction cs arbitrary: ms)
  case Nil
  then show ?case by simp
next
  case (Cons c cs)
  obtain x y where c: "c = (x, y)" by (cases c)
  from Cons.prems obtain ok ms' where
    "keepValid b p cs = Inr ms'" "ms = (if ok then (x, y) # ms' else ms')"
    by (auto simp: c split: sum.splits)
  with Cons.IH [of ms'] show ?case by (auto simp: c)
qed

lemma keepValid_filter:
  "\<forall>c \<in> set cs. \<exists>r. isValidMove b (fst c) (snd c) p = Inr r \<Longrightarrow>
   keepValid b p cs = Inr (filter (\<lambda>c. isValidMove b (fst c) (snd c) p = Inr True) cs)"
proof (induction cs)
  case Nil
  then show ?case by simp
next
  case (Cons c cs)
  obtain x y where c: "c = (x, y)" by (cases c)
  from Cons.prems obtain r where r: "isValidMove b x y p = Inr r" by (auto simp: c)
  from Cons have "keepValid b p cs
     = Inr (filter (\<lambda>c. isValidMove b (fst c) (snd c) p = Inr True) cs)" by simp
  with r show ?case by (simp add: c)
qed

lemma set_scanOrder: "set (scanOrder b) = {(x, y). inBounds b x y}"
  by (auto simp: scanOrder_def inBounds_def)

lemma getValidMoves_inBounds:
  assumes "getValidMoves b p = Inr ms" "m \<in> set ms"
  shows "inBounds b (fst m) (snd m)"
proof -
  from assms keepValid_subset [of b p "scanOrder b" ms] have "m \<in> set (scanOrder b)"
    by (auto simp: getValidMoves_def)
  then show ?thesis by (auto simp: set_scanOrder)
qed

lemma getValidMoves_wf:
  assumes wf: "wf_board b"
  shows "getValidMoves b p
    = Inr (filter (\<lambda>c. isValidMove b (fst c) (snd c) p = Inr True) (scanOrder b))"
  unfolding getValidMoves_def
proof (rule keepValid_filter, rule ballI)
  fix c assume "c \<in> set (scanOrder b)"
  then have "inBounds b (fst c) (snd c)" by (auto simp: set_scanOrder)
  then show "\<exists>r. isValidMove b (fst c) (snd c) p = Inr r"
    using isValidMove_total [OF wf] by (simp add: inBounds_def)
qed

text \<open>
  Claim C2, as the code has it. \<open>isValidMove\<close> reads \<open>this.board[y][x]\<close> first, with no
  bounds check before it. On a well-formed board, for a coordinate outside the grid: when
  \<open>y\<close> is a row of the grid (so \<open>x\<close> is outside), the read gives \<open>undefined\<close> and the call
  returns false; when \<open>y\<close> is no row of the grid, the read faults with a \<open>TypeError\<close>.
  \<open>getValidMoves\<close> returns, and never contains a coordinate outside the grid.
\<close>

theorem isValidMove_out_of_range:
  assumes wf: "wf_board b"
  shows "(\<not> inBounds b x y \<longrightarrow>
            isValidMove b x y p
              = (if 0 \<le> y \<and> y < size_b b then Inr False else Inl TypeError))
       \<and> (\<exists>ms. getValidMoves b p = Inr ms \<and> (\<forall>m \<in> set ms. inBounds b (fst m) (snd m)))"
proof
  show "\<not> inBounds b x y \<longrightarrow>
      isValidMove b x y p = (if 0 \<le> y \<and> y < size_b b then Inr False else Inl TypeError)"
  proof
    assume out: "\<not> inBounds b x y"
    show "isValidMove b x y p = (if 0 \<le> y \<and> y < size_b b then Inr False else Inl TypeError)"
    proof (cases "0 \<le> y \<and> y < size_b b")
      case True
      with out have "\<not> (0 \<le> x \<and> x < size_b b)" by (auto simp: inBounds_def)
      with True isValidMove_outside_column [OF wf, of y x p] show ?thesis by simp
    next
      case False
      with isValidMove_outside_row [OF wf, of y x p] show ?thesis by simp
    qed
  qed
next
  from getValidMoves_wf [OF wf, of p] obtain ms where ms: "getValidMoves b p = Inr ms"
    by blast
  with getValidMoves_inBounds [of b p ms] show
    "\<exists>ms. getValidMoves b p = Inr ms \<and> (\<forall>m \<in> set ms. inBounds b (fst m) (snd m))"
    by blast
qed

theorem isValidMove_out_of_range_witness:
  "wf_board board4 \<and> \<not> inBounds board4 4 0 \<and> isValidMove board4 4 0 1 = Inr False
   \<and> (\<exists>ms. getValidMoves board4 1 = Inr ms)"
proof -
  have out: "\<not> inBounds board4 4 0"
    by (simp add: inBounds_def board4_def)
  have sz: "size_b board4 = 4"
    by (simp add: board4_def)
  from isValidMove_out_of_range [OF wf_board4, of 4 0 1] out sz wf_board4
  show ?thesis by auto
qed

text \<open>
  Claim C2, as the specification states it, fails: on the starting board of size 4 the
  coordinate \<open>(0, 4)\<close> is outside the grid and \<open>isValidMove(0, 4, 1)\<close> does not return
  false but faults.
\<close>

theorem isValidMove_out_of_range_counterexample:
  "\<not> inBounds board4 0 4 \<and> isValidMove board4 0 4 1 = Inl TypeError"
  by (simp add: inBounds_def isValidMove_def cell_at_def row_at_def board4_def)

text \<open>
  Claim C3: on a well-formed board, for a coordinate on the grid that is not a legal move
  for \<open>p\<close>, \<open>isValidMove\<close> returns false, and \<open>applyMove\<close> returns false and leaves the
  board, grid and turn flag, as it was.
\<close>

theorem applyMove_rejects_unchanged:
  assumes "wf_board b" "inBounds b x y" "isValidMove b x y p \<noteq> Inr True"
  shows "isValidMove b x y p = Inr False \<and> applyMove b x y p = Inr (False, b)"
proof -
  from isValidMove_total [OF assms(1), of y x p] assms(2)
  obtain r where "isValidMove b x y p = Inr r"
    by (auto simp: inBounds_def)
  with assms(3) have "isValidMove b x y p = Inr False" by auto
  then show ?thesis by (simp add: applyMove_def)
qed

theorem applyMove_rejects_unchanged_witness:
  "wf_board board4 \<and> inBounds board4 0 0 \<and> isValidMove board4 0 0 1 \<noteq> Inr True
   \<and> applyMove board4 0 0 1 = Inr (False, board4)"
proof -
  have inb: "inBounds board4 0 0"
    by (simp add: inBounds_def board4_def)
  have no: "isValidMove board4 0 0 1 \<noteq> Inr True"
    by code_simp
  from applyMove_rejects_unchanged [OF wf_board4 inb no] inb no wf_board4
  show ?thesis by simp
qed

text \<open>
  Claim C4: on a well-formed board, for a player \<open>p \<noteq> 0\<close> (so for \<open>+1\<close> and \<open>-1\<close>) and a
  coordinate on the grid, \<open>isValidMove\<close> returns, and returns true exactly when the cell is
  empty and in one of the 8 directions one or more opposing stones next to the cell are
  followed by a stone of \<open>p\<close> on the grid. A run of zero opposing stones never qualifies.
\<close>

theorem isValidMove_iff_outflanks:
  assumes "wf_board b" "inBounds b x y" "p \<noteq> 0"
  shows "isValidMove b x y p
           = Inr (cell_at b x y = Inr (Some 0)
                  \<and> (\<exists>d \<in> set directions. \<exists>k. outflanks b x y p d k))
       \<and> (\<forall>d. \<not> outflanks b x y p d 0)"
  using isValidMove_wf [OF assms] by (simp add: legal_by_rule_def outflanks_def)

theorem isValidMove_iff_outflanks_witness:
  "wf_board board4 \<and> inBounds board4 2 0 \<and> (- 1 :: int) \<noteq> 0
   \<and> isValidMove board4 2 0 (- 1) = Inr True
   \<and> cell_at board4 2 0 = Inr (Some 0)
   \<and> (\<exists>d \<in> set directions. \<exists>k. outflanks board4 2 0 (- 1) d k)"
proof -
  have inb: "inBounds board4 2 0"
    by (simp add: inBounds_def board4_def)
  have p: "(- 1 :: int) \<noteq> 0" by simp
  have v: "isValidMove board4 2 0 (- 1) = Inr True"
    by code_simp
  from isValidMove_iff_outflanks [OF wf_board4 inb p] v inb wf_board4
  show ?thesis by simp
qed

lemma getValidMoves_full:
  assumes wf: "wf_board b" and full: "\<forall>r \<in> set (board b). 0 \<notin> set r"
  shows "getValidMoves b p = Inr []"
proof -
  have "isValidMove b (fst c) (snd c) p \<noteq> Inr True" if "c \<in> set (scanOrder b)" for c
  proof -
    from that have inb: "inBounds b (fst c) (snd c)" by (auto simp: set_scanOrder)
    with wf have y: "nat (snd c) < length (board b)"
      and "int (length (board b ! nat (snd c))) = size_b b"
      by (auto simp: wf_board_def inBounds_def)
    with inb have x: "nat (fst c) < length (board b ! nat (snd c))"
      by (auto simp: inBounds_def)
    from y have "board b ! nat (snd c) \<in> set (board b)" by (rule nth_mem)
    with full x have "board b ! nat (snd c) ! nat (fst c) \<noteq> 0"
      by (metis nth_mem)
    with cell_at_wf [OF wf inb] show ?thesis by (simp add: isValidMove_def)
  qed
  then have "filter (\<lambda>c. isValidMove b (fst c) (snd c) p = Inr True) (scanOrder b) = []"
    by (simp add: filter_empty_conv)
  with getValidMoves_wf [OF wf, of p] show ?thesis by simp
qed

text \<open>
  Claim C8: \<open>isGameOver\<close> returns true exactly when \<open>getValidMoves(1)\<close> and
  \<open>getValidMoves(-1)\<close> both return the empty list. On a well-formed board it always
  returns, and a full board is over. The instance after the theorem has a full board, a
  board without stones, where both sides are blocked while cells remain, and the starting
  board, which is not over.
\<close>

theorem isGameOver_iff_no_moves:
  "(isGameOver b = Inr True
      \<longleftrightarrow> getValidMoves b 1 = Inr [] \<and> getValidMoves b (- 1) = Inr [])
   \<and> (wf_board b \<longrightarrow>
        isGameOver b = Inr (getValidMoves b 1 = Inr [] \<and> getValidMoves b (- 1) = Inr []))
   \<and> (wf_board b \<and> (\<forall>r \<in> set (board b). 0 \<notin> set r) \<longrightarrow> isGameOver b = Inr True)"
proof (intro conjI impI)
  show 1: "isGameOver b = Inr True
      \<longleftrightarrow> getValidMoves b 1 = Inr [] \<and> getValidMoves b (- 1) = Inr []"
    by (auto simp: isGameOver_def split: sum.splits)
  show "isGameOver b = Inr (getValidMoves b 1 = Inr [] \<and> getValidMoves b (- 1) = Inr [])"
    if "wf_board b"
    using getValidMoves_wf [OF that, of 1] getValidMoves_wf [OF that, of "- 1"]
    by (simp add: isGameOver_def)
  show "isGameOver b = Inr True" if "wf_board b \<and> (\<forall>r \<in> set (board b). 0 \<notin> set r)"
    using that getValidMoves_full [of b] 1 by simp
qed

theorem isGameOver_iff_no_moves_witness:
  "wf_board full2 \<and> isGameOver full2 = Inr True
   \<and> getValidMoves full2 1 = Inr [] \<and> getValidMoves full2 (- 1) = Inr []
   \<and> wf_board empty4 \<and> isGameOver empty4 = Inr True
   \<and> wf_board board4 \<and> isGameOver board4 = Inr False"
proof -
  have wf: "wf_board full2" "wf_board empty4"
    by (simp_all add: wf_board_def full2_def empty4_def)
  have full: "\<forall>r \<in> set (board full2). 0 \<notin> set r"
    by (simp add: full2_def)
  have e: "getValidMoves empty4 1 = Inr []" "getValidMoves empty4 (- 1) = Inr []"
    by code_simp+
  have s: "getValidMoves board4 1 \<noteq> Inr []"
    by code_simp
  from isGameOver_iff_no_moves [of full2] isGameOver_iff_no_moves [of empty4]
    isGameOver_iff_no_moves [of board4] wf wf_board4 full e s
  show ?thesis by auto
qed

section \<open>Counting stones\<close>

lemma count_update:
  "i < length xs \<Longrightarrow>
   int (length (filter P (xs[i := v])))
     = int (length (filter P xs)) - (if P (xs ! i) then 1 else 0) + (if P v then 1 else 0)"
proof (induction xs arbitrary: i)
  case Nil
  then show ?case by simp
next
  case (Cons x xs)
  show ?case
  proof (cases i)
    case 0
    then show ?thesis by simp
  next
    case (Suc j)
    with Cons.prems have "j < length xs" by simp
    from Cons.IH [OF this] show ?thesis by (auto simp: Suc split: if_splits)
  qed
qed

lemma count_concat_update:
  "i < length xss \<Longrightarrow>
   int (length (filter P (concat (xss[i := r]))))
     = int (length (filter P (concat xss))) - int (length (filter P (xss ! i)))
       + int (length (filter P r))"
proof (induction xss arbitrary: i)
  case Nil
  then show ?case by simp
next
  case (Cons x xss)
  show ?case
  proof (cases i)
    case 0
    then show ?thesis by simp
  next
    case (Suc j)
    with Cons.prems have "j < length xss" by simp
    from Cons.IH [OF this] show ?thesis by (simp add: Suc)
  qed
qed

lemma set_cell_Inr:
  assumes "set_cell b x y v = Inr b'"
  shows "0 \<le> y" "nat y < length (board b)" "0 \<le> x" "nat x < length (board b ! nat y)"
    "b' = b\<lparr>board := (board b)[nat y := (board b ! nat y)[nat x := v]]\<rparr>"
proof -
  from assms have r: "row_at b y = Some (board b ! nat y)" and y: "0 \<le> y" "y < int (length (board b))"
    by (auto simp: set_cell_def row_at_def split: option.splits if_splits)
  from y show "0 \<le> y" "nat y < length (board b)" by linarith+
  from assms r have x: "0 \<le> x \<and> x < int (length (board b ! nat y))"
    by (simp add: set_cell_def split: if_splits)
  then show "0 \<le> x" "nat x < length (board b ! nat y)" by linarith+
  from assms r x show "b' = b\<lparr>board := (board b)[nat y := (board b ! nat y)[nat x := v]]\<rparr>"
    by (simp add: set_cell_def)
qed

lemma cell_at_nth:
  assumes "0 \<le> y" "nat y < length (board b)" "0 \<le> x" "nat x < length (board b ! nat y)"
  shows "cell_at b x y = Inr (Some (board b ! nat y ! nat x))"
proof -
  from assms have "y < int (length (board b))" "x < int (length (board b ! nat y))"
    by linarith+
  with assms show ?thesis by (simp add: cell_at_def row_at_def)
qed

lemma countCells_set_cell:
  assumes "set_cell b x y v = Inr b'"
  shows "\<exists>u. cell_at b x y = Inr (Some u)
     \<and> (\<forall>a. countCells b' a
           = countCells b a - (if u = a then 1 else 0) + (if v = a then 1 else 0))"
proof -
  note s = set_cell_Inr [OF assms]
  have b': "board b' = (board b)[nat y := (board b ! nat y)[nat x := v]]"
    by (simp add: s(5))
  have "countCells b' a = countCells b a
      - (if board b ! nat y ! nat x = a then 1 else 0) + (if v = a then 1 else 0)" for a
    unfolding countCells_def b'
    using count_concat_update [OF s(2), of "\<lambda>cell. cell = a" "(board b ! nat y)[nat x := v]"]
      count_update [OF s(4), of "\<lambda>cell. cell = a" v]
    by simp
  with cell_at_nth [OF s(1-4)] show ?thesis by blast
qed

lemma cell_at_set_cell_same:
  assumes "set_cell b x y v = Inr b'"
  shows "cell_at b' x y = Inr (Some v)"
proof -
  note s = set_cell_Inr [OF assms]
  have b': "board b' = (board b)[nat y := (board b ! nat y)[nat x := v]]"
    by (simp add: s(5))
  from s(2,4) have "nat y < length (board b')" "nat x < length (board b' ! nat y)"
    by (simp_all add: b')
  from cell_at_nth [OF s(1) this(1) s(3) this(2)] s(2,4) show ?thesis
    by (simp add: b')
qed

lemma cell_at_set_cell_other:
  assumes "set_cell b x y v = Inr b'" and ne: "\<not> (x' = x \<and> y' = y)"
  shows "cell_at b' x' y' = cell_at b x' y'"
proof -
  note s = set_cell_Inr [OF assms(1)]
  have b': "board b' = (board b)[nat y := (board b ! nat y)[nat x := v]]"
    by (simp add: s(5))
  show ?thesis
  proof (cases "0 \<le> y' \<and> y' < int (length (board b))")
    case False
    then have "row_at b' y' = None" "row_at b y' = None"
      by (auto simp: row_at_def b')
    then show ?thesis by (simp add: cell_at_def)
  next
    case y': True
    show ?thesis
    proof (cases "y' = y")
      case False
      with y' s(1) have "nat y' \<noteq> nat y" by linarith
      with y' show ?thesis by (simp add: cell_at_def row_at_def b')
    next
      case True
      with ne have x': "x' \<noteq> x" by simp
      have "0 \<le> x' \<Longrightarrow> nat x' \<noteq> nat x" using x' s(3) by linarith
      with True y' s(2) show ?thesis
        by (auto simp: cell_at_def row_at_def b')
    qed
  qed
qed

lemma countStones_countCells: "countStones b = (countCells b 1, countCells b (- 1))"
  by (simp add: countStones_def countCells_def)

lemma stonesOf_countCells: "p = 1 \<or> p = - 1 \<Longrightarrow> stonesOf b p = countCells b p"
  by (auto simp: stonesOf_def countStones_countCells)

lemma totalStones_countCells: "totalStones b = countCells b 1 + countCells b (- 1)"
  by (simp add: totalStones_def countStones_countCells)

lemma set_cell_place:
  assumes p: "p = 1 \<or> p = - 1" and s: "set_cell b x y p = Inr b'"
    and c: "cell_at b x y = Inr (Some 0)"
  shows "totalStones b' = totalStones b + 1" "stonesOf b' p = stonesOf b p + 1"
proof -
  from countCells_set_cell [OF s] c
  have cnt: "countCells b' a = countCells b a - (if 0 = a then 1 else 0) + (if p = a then 1 else 0)"
    for a by auto
  from p cnt [of 1] cnt [of "- 1"] show "totalStones b' = totalStones b + 1"
    by (auto simp: totalStones_countCells)
  from p cnt [of p] show "stonesOf b' p = stonesOf b p + 1"
    by (auto simp: stonesOf_countCells)
qed

lemma set_cell_flip:
  assumes p: "p = 1 \<or> p = - 1" and s: "set_cell b x y p = Inr b'"
    and c: "cell_at b x y = Inr (Some u)" and u: "u = p \<or> u = - p"
  shows "totalStones b' = totalStones b" "stonesOf b p \<le> stonesOf b' p"
proof -
  from countCells_set_cell [OF s] c
  have cnt: "countCells b' a = countCells b a - (if u = a then 1 else 0) + (if p = a then 1 else 0)"
    for a by auto
  from p u cnt [of 1] cnt [of "- 1"] show "totalStones b' = totalStones b"
    by (auto simp: totalStones_countCells)
  from p u cnt [of p] show "stonesOf b p \<le> stonesOf b' p"
    by (auto simp: stonesOf_countCells)
qed

lemma flipAll_counts:
  assumes p: "p = 1 \<or> p = - 1"
  shows "\<forall>c \<in> set fs. turnable b p c \<Longrightarrow> flipAll b p fs = Inr b' \<Longrightarrow>
    totalStones b' = totalStones b \<and> stonesOf b p \<le> stonesOf b' p"
proof (induction fs arbitrary: b)
  case Nil
  then show ?case by simp
next
  case (Cons f fs)
  obtain fx fy where f: "f = (fx, fy)" by (cases f)
  from Cons.prems(2) obtain b1 where
    s: "set_cell b fx fy p = Inr b1" and r: "flipAll b1 p fs = Inr b'"
    by (auto simp: f split: sum.splits)
  from Cons.prems(1) obtain u where u: "cell_at b fx fy = Inr (Some u)" "u = p \<or> u = - p"
    by (auto simp: f turnable_def)
  have "turnable b1 p c" if "c \<in> set fs" for c
  proof (cases "fst c = fx \<and> snd c = fy")
    case True
    with cell_at_set_cell_same [OF s] show ?thesis by (simp add: turnable_def)
  next
    case False
    from cell_at_set_cell_other [OF s False] Cons.prems(1) that show ?thesis
      by (simp add: turnable_def)
  qed
  with Cons.IH [of b1] r
  have "totalStones b' = totalStones b1 \<and> stonesOf b1 p \<le> stonesOf b' p" by blast
  with set_cell_flip [OF p s u] show ?case by simp
qed

lemma walkFlips_cells:
  "walkFlips b p d (nx, ny, fs) = Inr (nx', ny', fs') \<Longrightarrow>
   \<forall>c \<in> set fs. cell_at b (fst c) (snd c) = Inr (Some (- p)) \<Longrightarrow>
   \<forall>c \<in> set fs'. cell_at b (fst c) (snd c) = Inr (Some (- p))"
proof (induction b p d "(nx, ny, fs)" arbitrary: nx ny fs rule: walkFlips.induct)
  case (1 b player dx dy nx ny flips)
  show ?case
  proof (cases "inBounds b nx ny \<and> cell_at b nx ny = Inr (Some (- player))")
    case False
    with "1.prems"(1) have "fs' = flips"
      by (subst (asm) walkFlips.simps) (auto split: sum.splits if_splits)
    with "1.prems"(2) show ?thesis by simp
  next
    case True
    with "1.prems"(1) have nz: "\<not> (dx = 0 \<and> dy = 0)"
      and w: "walkFlips b player (dx, dy) (nx + dx, ny + dy, flips @ [(nx, ny)])
               = Inr (nx', ny', fs')"
      by (subst (asm) walkFlips.simps, simp split: if_splits)+
    from True "1.prems"(2)
    have "\<forall>c \<in> set (flips @ [(nx, ny)]). cell_at b (fst c) (snd c) = Inr (Some (- player))"
      by simp
    with "1.hyps" [of "Some (- player)"] True nz w show ?thesis by blast
  qed
qed

lemma flipDir_counts:
  assumes p: "p = 1 \<or> p = - 1" and f: "flipDir b x y p d = Inr b'"
  shows "totalStones b' = totalStones b \<and> stonesOf b p \<le> stonesOf b' p"
proof -
  from f obtain nx ny flips where
    w: "walkFlips b p d (x + fst d, y + snd d, []) = Inr (nx, ny, flips)"
    by (auto simp: flipDir_def split: sum.splits)
  from walkFlips_cells [OF w] have "\<forall>c \<in> set flips. turnable b p c"
    by (simp add: turnable_def)
  with flipAll_counts [OF p, of flips b b'] f w show ?thesis
    by (auto simp: flipDir_def split: sum.splits if_splits)
qed

lemma flipDirs_counts:
  assumes p: "p = 1 \<or> p = - 1"
  shows "flipDirs b x y p ds = Inr b' \<Longrightarrow>
    totalStones b' = totalStones b \<and> stonesOf b p \<le> stonesOf b' p"
proof (induction ds arbitrary: b)
  case Nil
  then show ?case by simp
next
  case (Cons d ds)
  from Cons.prems obtain b1 where
    d: "flipDir b x y p d = Inr b1" and r: "flipDirs b1 x y p ds = Inr b'"
    by (auto split: sum.splits)
  from Cons.IH [OF r] flipDir_counts [OF p d] show ?case by simp
qed

lemma isValidMove_True_cell:
  assumes "isValidMove b x y p = Inr True"
  shows "cell_at b x y = Inr (Some 0)"
  using assms by (auto simp: isValidMove_def split: sum.splits if_splits)

text \<open>
  Claim C5: when \<open>applyMove(x, y, p)\<close> is accepted, for \<open>p\<close> one of \<open>+1\<close> and \<open>-1\<close>, the
  stone count of \<open>p\<close> strictly increases and the number of stones on the board increases
  by exactly one: placing the stone adds one, and the flips of the 8 directions leave the
  total as it is.
\<close>

theorem applyMove_accepted_counts:
  assumes p: "p = 1 \<or> p = - 1" and a: "applyMove b x y p = Inr (True, b')"
  shows "stonesOf b p < stonesOf b' p \<and> totalStones b' = totalStones b + 1
    \<and> (\<exists>b1 b2. set_cell b x y p = Inr b1 \<and> flipDirs b1 x y p directions = Inr b2
          \<and> totalStones b1 = totalStones b + 1 \<and> totalStones b2 = totalStones b1)"
proof -
  from a obtain b1 b2 where v: "isValidMove b x y p = Inr True"
    and b1: "set_cell b x y p = Inr b1" and b2: "flipDirs b1 x y p directions = Inr b2"
    and b': "b' = switchPlayer b2"
    by (auto simp: applyMove_def split: sum.splits if_splits)
  note place = set_cell_place [OF p b1 isValidMove_True_cell [OF v]]
  note flips = flipDirs_counts [OF p b2]
  have same: "stonesOf b' p = stonesOf b2 p" "totalStones b' = totalStones b2"
    by (simp_all add: b' switchPlayer_def stonesOf_def totalStones_def countStones_def)
  from place flips same have "stonesOf b p < stonesOf b' p" "totalStones b' = totalStones b + 1"
    by simp_all
  with b1 b2 place flips show ?thesis by blast
qed

theorem applyMove_accepted_counts_witness:
  "((1::int) = 1 \<or> (1::int) = - 1) \<and> applyMove board4 1 0 1 = Inr (True, board4_black)
   \<and> stonesOf board4 1 = 2 \<and> stonesOf board4_black 1 = 4
   \<and> totalStones board4 = 4 \<and> totalStones board4_black = 5"
proof -
  have p: "(1::int) = 1 \<or> (1::int) = - 1" by simp
  have c: "stonesOf board4 1 = 2" "totalStones board4 = 4" "stonesOf board4_black 1 = 4"
    by (simp_all add: stonesOf_def totalStones_def countStones_def board4_def board4_black_def)
  from applyMove_accepted_counts [OF p applyMove_board4_black] c applyMove_board4_black
  show ?thesis by auto
qed

section \<open>The evaluator\<close>

lemma cornerLoop_negate:
  "cornerLoop b (- p) (- s) cs
     = (case cornerLoop b p s cs of Inl e \<Rightarrow> Inl e | Inr v \<Rightarrow> Inr (- v))"
proof (induction cs arbitrary: s)
  case Nil
  then show ?case by simp
next
  case (Cons c cs)
  obtain x y where c: "c = (x, y)" by (cases c)
  show ?case
  proof (cases "cell_at b x y")
    case (Inl e)
    then show ?thesis by (simp add: c)
  next
    case (Inr v)
    let ?s = "(if v = Some (- p) then (if v = Some p then s + 5 else s) - 5
              else (if v = Some p then s + 5 else s))"
    have "(if v = Some p then (if v = Some (- p) then - s + 5 else - s) - 5
           else (if v = Some (- p) then - s + 5 else - s)) = - ?s"
      by auto
    with Cons.IH [of ?s] Inr show ?thesis by (simp add: c Let_def)
  qed
qed

lemma stoneDiff_negate: "p = 1 \<or> p = - 1 \<Longrightarrow> stoneDiff b (- p) = - stoneDiff b p"
  by (auto simp: stoneDiff_def split: prod.splits)

lemma cornerLoop_wf:
  assumes wf: "wf_board b"
  shows "\<forall>c \<in> set cs. inBounds b (fst c) (snd c) \<Longrightarrow> \<exists>v. cornerLoop b p s cs = Inr v"
proof (induction cs arbitrary: s)
  case Nil
  then show ?case by simp
next
  case (Cons c cs)
  obtain x y where c: "c = (x, y)" by (cases c)
  from Cons.prems have "inBounds b x y" by (simp add: c)
  from cell_at_wf [OF wf this] Cons.IH Cons.prems show ?case
    by (simp add: c Let_def)
qed

lemma cornerScore_wf:
  assumes "wf_board b" "1 \<le> size_b b"
  shows "\<exists>v. cornerScore b p = Inr v"
  unfolding cornerScore_def
  using assms(2) by (intro cornerLoop_wf [OF assms(1)]) (simp add: corners_def inBounds_def)

text \<open>
  Claim C10: for \<open>p\<close> one of \<open>+1\<close> and \<open>-1\<close>, \<open>evaluate(b, p) = -evaluate(b, -p)\<close>. The two
  calls fault together or return opposite numbers, and on a well-formed board with at
  least one cell they return.
\<close>

theorem evaluate_antisymmetric:
  assumes p: "p = 1 \<or> p = - 1"
  shows "(case evaluate b p of
            Inl e \<Rightarrow> evaluate b (- p) = Inl e
          | Inr v \<Rightarrow> evaluate b (- p) = Inr (- v))
       \<and> (wf_board b \<and> 1 \<le> size_b b \<longrightarrow>
            (\<exists>v. evaluate b p = Inr v \<and> evaluate b (- p) = Inr (- v)))"
proof -
  have neg: "cornerScore b (- p)
      = (case cornerScore b p of Inl e \<Rightarrow> Inl e | Inr v \<Rightarrow> Inr (- v))"
    using cornerLoop_negate [of b p 0 "corners b"] by (simp add: cornerScore_def)
  have 1: "case evaluate b p of
            Inl e \<Rightarrow> evaluate b (- p) = Inl e
          | Inr v \<Rightarrow> evaluate b (- p) = Inr (- v)"
    using neg stoneDiff_negate [OF p, of b]
    by (simp add: evaluate_def split: sum.splits)
  have "\<exists>v. evaluate b p = Inr v \<and> evaluate b (- p) = Inr (- v)"
    if "wf_board b \<and> 1 \<le> size_b b"
  proof -
    from that cornerScore_wf [of b p] obtain c where "cornerScore b p = Inr c" by blast
    then obtain v where v: "evaluate b p = Inr v" by (simp add: evaluate_def)
    with 1 show ?thesis by simp
  qed
  with 1 show ?thesis by blast
qed

theorem evaluate_antisymmetric_witness:
  "((1 :: int) = 1 \<or> (1 :: int) = - 1) \<and> wf_board corner4 \<and> 1 \<le> size_b corner4
   \<and> evaluate corner4 1 = Inr 6 \<and> evaluate corner4 (- 1) = Inr (- 6)"
proof -
  have p: "(1 :: int) = 1 \<or> (1 :: int) = - 1" by simp
  have wf: "wf_board corner4" "1 \<le> size_b corner4"
    by (simp_all add: wf_board_def corner4_def)
  have e: "evaluate corner4 1 = Inr 6"
    by code_simp
  from evaluate_antisymmetric [OF p, of corner4] wf e show ?thesis by simp
qed

section \<open>Minimax\<close>

lemma maxLoop_Some:
  "\<forall>c \<in> set cs. c \<noteq> None \<Longrightarrow> \<exists>r. maxLoop acc cs = Some r"
proof (induction acc cs rule: maxLoop.induct)
qed auto

lemma minLoop_Some:
  "\<forall>c \<in> set cs. c \<noteq> None \<Longrightarrow> \<exists>r. minLoop acc cs = Some r"
proof (induction acc cs rule: minLoop.induct)
qed auto

text \<open>Started at a depth \<open>d \<ge> 0\<close>, \<open>minimax\<close> returns within \<open>d + 1\<close> nested calls.\<close>

lemma minimax_returns:
  "0 \<le> d \<Longrightarrow> nat d < fuel \<Longrightarrow> \<exists>r. minimax fuel b d m M = Some r"
proof (induction fuel arbitrary: b d m)
  case 0
  then show ?case by simp
next
  case (Suc fuel)
  note unfold = minimax.simps(2) [of fuel b d m M]
  show ?case
  proof (cases "d = 0")
    case True
    then show ?thesis by (simp add: minimax.simps)
  next
    case False
    with Suc.prems have d: "0 \<le> d - 1" "nat (d - 1) < fuel" by linarith+
    note IH = Suc.IH [OF d]
    show ?thesis
    proof (cases "isGameOver b")
      case (Inl e)
      with False show ?thesis by (simp add: unfold)
    next
      case over: (Inr go)
      show ?thesis
      proof (cases go)
        case True
        with over False show ?thesis by (simp add: unfold)
      next
        case notover: False
        show ?thesis
        proof (cases "getValidMoves b m")
          case (Inl e)
          with over notover False show ?thesis by (simp add: unfold)
        next
          case (Inr moves)
          let ?children = "map (\<lambda>(x, y).
                       case clone b of
                         Inl e \<Rightarrow> Some (Inl e)
                       | Inr tmp \<Rightarrow>
                           (case applyMove tmp x y m of
                              Inl e \<Rightarrow> Some (Inl e)
                            | Inr (_, tmp') \<Rightarrow> minimax fuel tmp' (d - 1) (- m) M)) moves"
          have "\<forall>c \<in> set ?children. c \<noteq> None"
            using IH by (auto split: sum.splits)
          from maxLoop_Some [OF this] minLoop_Some [OF this] IH [of b "- m"]
          show ?thesis
            using over notover False Inr by (simp add: unfold Let_def)
        qed
      qed
    qed
  qed
qed

lemma maxLoop_cong_Some:
  "maxLoop acc cs = Some r \<Longrightarrow> length cs = length cs' \<Longrightarrow>
   \<forall>i < length cs. \<forall>v. cs ! i = Some v \<longrightarrow> cs' ! i = Some v \<Longrightarrow> maxLoop acc cs' = Some r"
proof (induction acc cs arbitrary: cs' rule: maxLoop.induct)
  case (1 maxEval)
  then show ?case by simp
next
  case (2 maxEval cs)
  then show ?case by simp
next
  case (3 maxEval e cs)
  then obtain c' cs'' where c: "cs' = c' # cs''" by (cases cs') auto
  from "3.prems"(3) [rule_format, of 0] have "c' = Some (Inl e)" by (simp add: c)
  with "3.prems"(1) show ?case by (auto simp: c)
next
  case (4 maxEval evalScore cs)
  then obtain c' cs'' where c: "cs' = c' # cs''" by (cases cs') auto
  from "4.prems"(3) [rule_format, of 0] have c': "c' = Some (Inr evalScore)" by (simp add: c)
  have "\<forall>i < length cs. \<forall>v. cs ! i = Some v \<longrightarrow> cs'' ! i = Some v"
    using "4.prems"(3) [rule_format, of "Suc _"] by (simp add: c)
  with "4.IH" [of cs''] "4.prems"(1,2) show ?case by (simp add: c c')
qed

lemma minLoop_cong_Some:
  "minLoop acc cs = Some r \<Longrightarrow> length cs = length cs' \<Longrightarrow>
   \<forall>i < length cs. \<forall>v. cs ! i = Some v \<longrightarrow> cs' ! i = Some v \<Longrightarrow> minLoop acc cs' = Some r"
proof (induction acc cs arbitrary: cs' rule: minLoop.induct)
  case (1 minEval)
  then show ?case by simp
next
  case (2 minEval cs)
  then show ?case by simp
next
  case (3 minEval e cs)
  then obtain c' cs'' where c: "cs' = c' # cs''" by (cases cs') auto
  from "3.prems"(3) [rule_format, of 0] have "c' = Some (Inl e)" by (simp add: c)
  with "3.prems"(1) show ?case by (auto simp: c)
next
  case (4 minEval evalScore cs)
  then obtain c' cs'' where c: "cs' = c' # cs''" by (cases cs') auto
  from "4.prems"(3) [rule_format, of 0] have c': "c' = Some (Inr evalScore)" by (simp add: c)
  have "\<forall>i < length cs. \<forall>v. cs ! i = Some v \<longrightarrow> cs'' ! i = Some v"
    using "4.prems"(3) [rule_format, of "Suc _"] by (simp add: c)
  with "4.IH" [of cs''] "4.prems"(1,2) show ?case by (simp add: c c')
qed

text \<open>A call that returns within \<open>fuel\<close> nested calls returns the same within more.\<close>

lemma minimax_Suc_fuel:
  "minimax fuel b d m M = Some r \<Longrightarrow> minimax (Suc fuel) b d m M = Some r"
proof (induction fuel arbitrary: b d m r)
  case 0
  then show ?case by (simp add: minimax.simps)
next
  case (Suc fuel)
  note unfold = minimax.simps(2) [of fuel b d m M] minimax.simps(2) [of "Suc fuel" b d m M]
  let ?child = "\<lambda>f (x, y).
             case clone b of
               Inl e \<Rightarrow> Some (Inl e)
             | Inr tmp \<Rightarrow>
                 (case applyMove tmp x y m of
                    Inl e \<Rightarrow> Some (Inl e)
                  | Inr (_, tmp') \<Rightarrow> minimax f tmp' (d - 1) (- m) M)"
  consider (leaf) v where "\<forall>f. minimax (Suc f) b d m M = Some v"
    | (pass) "\<forall>f. minimax (Suc f) b d m M = minimax f b (d - 1) (- m) M"
    | (maxi) moves where
        "\<forall>f. minimax (Suc f) b d m M = maxLoop NegInfinity (map (?child f) moves)"
    | (mini) moves where
        "\<forall>f. minimax (Suc f) b d m M = minLoop PosInfinity (map (?child f) moves)"
  proof (cases "d = 0")
    case True
    then have "\<forall>f. minimax (Suc f) b d m M = Some (evaluateNum b M)"
      by (simp add: minimax.simps)
    then show ?thesis by (rule leaf)
  next
    case False
    show ?thesis
    proof (cases "isGameOver b")
      case (Inl e)
      with False have "\<forall>f. minimax (Suc f) b d m M = Some (Inl e)"
        by (simp add: minimax.simps)
      then show ?thesis by (rule leaf)
    next
      case over: (Inr go)
      show ?thesis
      proof (cases go)
        case True
        with over False have "\<forall>f. minimax (Suc f) b d m M = Some (evaluateNum b M)"
          by (simp add: minimax.simps)
        then show ?thesis by (rule leaf)
      next
        case notover: False
        show ?thesis
        proof (cases "getValidMoves b m")
          case (Inl e)
          with over notover False have "\<forall>f. minimax (Suc f) b d m M = Some (Inl e)"
            by (simp add: minimax.simps)
          then show ?thesis by (rule leaf)
        next
          case (Inr moves)
          show ?thesis
          proof (cases "length moves = 0")
            case True
            with over notover False Inr
            have "\<forall>f. minimax (Suc f) b d m M = minimax f b (d - 1) (- m) M"
              by (simp add: minimax.simps)
            then show ?thesis by (rule pass)
          next
            case nonempty: False
            show ?thesis
            proof (cases "m = M")
              case True
              with over notover False Inr nonempty
              have "\<forall>f. minimax (Suc f) b d m M = maxLoop NegInfinity (map (?child f) moves)"
                by (auto simp add: minimax.simps Let_def)
              then show ?thesis by (rule maxi)
            next
              case ne: False
              with over notover False Inr nonempty
              have "\<forall>f. minimax (Suc f) b d m M = minLoop PosInfinity (map (?child f) moves)"
                by (simp add: minimax.simps Let_def)
              then show ?thesis by (rule mini)
            qed
          qed
        qed
      qed
    qed
  qed
  then show ?case
  proof cases
    case leaf
    with Suc.prems show ?thesis by simp
  next
    case pass
    with Suc.prems have "minimax fuel b (d - 1) (- m) M = Some r" by simp
    from Suc.IH [OF this] pass show ?thesis by simp
  next
    case maxi
    have step: "\<forall>i < length (map (?child fuel) moves).
        \<forall>v. map (?child fuel) moves ! i = Some v
          \<longrightarrow> map (?child (Suc fuel)) moves ! i = Some v"
      using Suc.IH by (auto split: sum.splits prod.splits)
    have len: "length (map (?child fuel) moves) = length (map (?child (Suc fuel)) moves)"
      by simp
    from maxi Suc.prems have "maxLoop NegInfinity (map (?child fuel) moves) = Some r"
      by simp
    from maxLoop_cong_Some [OF this len step] maxi show ?thesis by simp
  next
    case mini
    have step: "\<forall>i < length (map (?child fuel) moves).
        \<forall>v. map (?child fuel) moves ! i = Some v
          \<longrightarrow> map (?child (Suc fuel)) moves ! i = Some v"
      using Suc.IH by (auto split: sum.splits prod.splits)
    have len: "length (map (?child fuel) moves) = length (map (?child (Suc fuel)) moves)"
      by simp
    from mini Suc.prems have "minLoop PosInfinity (map (?child fuel) moves) = Some r"
      by simp
    from minLoop_cong_Some [OF this len step] mini show ?thesis by simp
  qed
qed

lemma minimax_more_fuel:
  "minimax fuel b d m M = Some r \<Longrightarrow> minimax (fuel + k) b d m M = Some r"
  by (induction k) (simp_all add: minimax_Suc_fuel)

section \<open>Greedy and one-ply minimax\<close>

lemma minimaxLoop_greedyLoop:
  "cornerTermZero b p ms \<Longrightarrow>
   minimaxLoop (Suc fuel) 1 b p st ms = Some (greedyLoop b p st ms)"
proof (induction ms arbitrary: st)
  case Nil
  obtain bm bs where st: "st = (bm, bs)" by (cases st)
  show ?case by (simp add: st)
next
  case (Cons mv ms)
  obtain bm bs where st: "st = (bm, bs)" by (cases st)
  obtain x y where mv: "mv = (x, y)" by (cases mv)
  from Cons.prems have rest: "cornerTermZero b p ms"
    by (simp add: cornerTermZero_def)
  note IH = Cons.IH [OF rest]
  show ?case
  proof (cases "clone b")
    case (Inl e)
    then show ?thesis by (simp add: st mv)
  next
    case tmp: (Inr tmp)
    show ?thesis
    proof (cases "applyMove tmp x y p")
      case (Inl e)
      with tmp show ?thesis by (simp add: st mv)
    next
      case (Inr res)
      obtain ok tmp' where res: "res = (ok, tmp')" by (cases res)
      from Cons.prems tmp Inr have "cornerScore tmp' p = Inr 0"
        by (simp add: cornerTermZero_def mv res)
      then have "minimax (Suc fuel) tmp' (1 - 1) (- p) p = Some (Inr (Fin (stoneDiff tmp' p)))"
        by (simp add: minimax.simps evaluateNum_def evaluate_def)
      with tmp Inr IH show ?thesis by (simp add: st mv res Let_def)
    qed
  qed
qed

section \<open>The store and the grid it shows\<close>

lemma view_simps [simp]:
  "size_b (view h ob) = o_size ob"
  "board (view h ob) = map (\<lambda>r. h ! r) (o_board ob)"
  "currentPlayer (view h ob) = o_currentPlayer ob"
  by (simp_all add: view_def)

lemma frame_refl: "frame ob h h"
  by (simp add: frame_def)

lemma frame_trans: "frame ob h h' \<Longrightarrow> frame ob h' h'' \<Longrightarrow> frame ob h h''"
  by (simp add: frame_def)

lemma frame_wf_obj: "frame ob h h' \<Longrightarrow> wf_obj h ob' \<Longrightarrow> wf_obj h' ob'"
  by (simp add: frame_def wf_obj_def)

lemma frame_view:
  assumes "frame ob h h'" "separate ob ob'" "wf_obj h ob'"
  shows "view h' ob' = view h ob'"
proof -
  have "h' ! r = h ! r" if "r \<in> set (o_board ob')" for r
  proof -
    from that assms(3) have "r < length h" by (simp add: wf_obj_def)
    moreover from that assms(2) have "r \<notin> set (o_board ob)" by (auto simp: separate_def)
    ultimately show ?thesis using assms(1) by (simp add: frame_def)
  qed
  then show ?thesis by (simp add: view_def)
qed

lemma h_set_cell_frame:
  assumes "h_set_cell h ob x y v = Inr h'"
  shows "frame ob h h'"
proof -
  from assms have y: "0 \<le> y" "y < int (length (o_board ob))"
    and h': "h' = h[o_board ob ! nat y := (h ! (o_board ob ! nat y))[nat x := v]]"
    by (auto simp: h_set_cell_def Let_def split: if_splits)
  from y have "nat y < length (o_board ob)" by linarith
  then have "o_board ob ! nat y \<in> set (o_board ob)" by (rule nth_mem)
  then have "r \<notin> set (o_board ob) \<Longrightarrow> o_board ob ! nat y \<noteq> r" for r by auto
  then show ?thesis by (simp add: frame_def h')
qed

lemma map_nth_update_distinct:
  assumes "distinct rs" "i < length rs" "\<forall>r \<in> set rs. r < length h"
  shows "map (\<lambda>r. h[rs ! i := row] ! r) rs = (map (\<lambda>r. h ! r) rs)[i := row]"
proof (rule nth_equalityI)
  show "length (map (\<lambda>r. h[rs ! i := row] ! r) rs) = length ((map (\<lambda>r. h ! r) rs)[i := row])"
    by simp
next
  fix j assume "j < length (map (\<lambda>r. h[rs ! i := row] ! r) rs)"
  then have j: "j < length rs" by simp
  with assms(1,2) have eq: "rs ! j = rs ! i \<longleftrightarrow> j = i"
    by (simp add: nth_eq_iff_index_eq)
  from j assms(3) have "rs ! j < length h" by simp
  with j eq show "map (\<lambda>r. h[rs ! i := row] ! r) rs ! j = (map (\<lambda>r. h ! r) rs)[i := row] ! j"
    by (auto simp: nth_list_update)
qed

text \<open>A write through an object is the write on the grid it shows.\<close>

lemma h_set_cell_sim:
  assumes wf: "wf_obj h ob"
  shows "set_cell (view h ob) x y v
    = (case h_set_cell h ob x y v of Inl e \<Rightarrow> Inl e | Inr h' \<Rightarrow> Inr (view h' ob))"
proof (cases "0 \<le> y \<and> y < int (length (o_board ob))")
  case False
  then show ?thesis by (auto simp: set_cell_def row_at_def h_set_cell_def)
next
  case True
  then have ny: "nat y < length (o_board ob)" by linarith
  let ?r = "o_board ob ! nat y"
  from True ny have row: "row_at (view h ob) y = Some (h ! ?r)"
    by (simp add: row_at_def)
  show ?thesis
  proof (cases "0 \<le> x \<and> x < int (length (h ! ?r))")
    case False
    with True row show ?thesis by (auto simp: set_cell_def h_set_cell_def Let_def)
  next
    case x: True
    from wf have "distinct (o_board ob)" "\<forall>r \<in> set (o_board ob). r < length h"
      by (simp_all add: wf_obj_def)
    from map_nth_update_distinct [OF this(1) ny this(2)]
    have "view (h[?r := (h ! ?r)[nat x := v]]) ob
        = (view h ob)\<lparr>board := (board (view h ob))[nat y := (h ! ?r)[nat x := v]]\<rparr>"
      by (simp add: view_def)
    with True x row show ?thesis by (simp add: set_cell_def h_set_cell_def Let_def)
  qed
qed

lemma h_flipAll_sim:
  "wf_obj h ob \<Longrightarrow>
   (case h_flipAll h ob p fs of
      Inl e \<Rightarrow> flipAll (view h ob) p fs = Inl e
    | Inr h' \<Rightarrow> flipAll (view h ob) p fs = Inr (view h' ob) \<and> frame ob h h')"
proof (induction fs arbitrary: h)
  case Nil
  then show ?case by (simp add: frame_refl)
next
  case (Cons f fs)
  obtain fx fy where f: "f = (fx, fy)" by (cases f)
  note sim = h_set_cell_sim [OF Cons.prems, of fx fy p]
  show ?case
  proof (cases "h_set_cell h ob fx fy p")
    case (Inl e)
    with sim show ?thesis by (simp add: f)
  next
    case (Inr h1)
    note fr = h_set_cell_frame [OF Inr]
    from frame_wf_obj [OF fr Cons.prems] have wf1: "wf_obj h1 ob" .
    from Cons.IH [OF wf1] sim Inr fr show ?thesis
      by (auto simp: f split: sum.splits intro: frame_trans)
  qed
qed

lemma h_flipDir_sim:
  assumes "wf_obj h ob"
  shows "case h_flipDir h ob x y p d of
      Inl e \<Rightarrow> flipDir (view h ob) x y p d = Inl e
    | Inr h' \<Rightarrow> flipDir (view h ob) x y p d = Inr (view h' ob) \<and> frame ob h h'"
proof (cases "walkFlips (view h ob) p d (x + fst d, y + snd d, [])")
  case (Inl e)
  then show ?thesis by (simp add: h_flipDir_def flipDir_def)
next
  case (Inr res)
  obtain nx ny flips where res: "res = (nx, ny, flips)" by (cases res)
  show ?thesis
  proof (cases "inBounds (view h ob) nx ny \<and> cell_at (view h ob) nx ny = Inr (Some p)")
    case True
    with Inr have "h_flipDir h ob x y p d = h_flipAll h ob p flips"
      "flipDir (view h ob) x y p d = flipAll (view h ob) p flips"
      by (simp_all add: h_flipDir_def flipDir_def res)
    with h_flipAll_sim [OF assms, of p flips] show ?thesis by (simp split: sum.splits)
  next
    case False
    with Inr have "h_flipDir h ob x y p d = (case cell_at (view h ob) nx ny of
        Inl e \<Rightarrow> if inBounds (view h ob) nx ny then Inl e else Inr h | Inr v \<Rightarrow> Inr h)"
      "flipDir (view h ob) x y p d = (case cell_at (view h ob) nx ny of
        Inl e \<Rightarrow> if inBounds (view h ob) nx ny then Inl e else Inr (view h ob)
      | Inr v \<Rightarrow> Inr (view h ob))"
      by (auto simp: h_flipDir_def flipDir_def res split: sum.splits)
    then show ?thesis by (simp add: frame_refl split: sum.splits)
  qed
qed

lemma h_flipDirs_sim:
  "wf_obj h ob \<Longrightarrow>
   (case h_flipDirs h ob x y p ds of
      Inl e \<Rightarrow> flipDirs (view h ob) x y p ds = Inl e
    | Inr h' \<Rightarrow> flipDirs (view h ob) x y p ds = Inr (view h' ob) \<and> frame ob h h')"
proof (induction ds arbitrary: h)
  case Nil
  then show ?case by (simp add: frame_refl)
next
  case (Cons d ds)
  note sim = h_flipDir_sim [OF Cons.prems, of x y p d]
  show ?case
  proof (cases "h_flipDir h ob x y p d")
    case (Inl e)
    with sim show ?thesis by simp
  next
    case (Inr h1)
    with sim have fr: "frame ob h h1" by simp
    from frame_wf_obj [OF fr Cons.prems] have wf1: "wf_obj h1 ob" .
    from Cons.IH [OF wf1] sim Inr fr show ?thesis
      by (auto split: sum.splits intro: frame_trans)
  qed
qed


lemma frame_same_rows: "o_board ob' = o_board ob \<Longrightarrow> frame ob' h h' = frame ob h h'"
  by (simp add: frame_def)

lemma wf_obj_same_rows: "o_board ob' = o_board ob \<Longrightarrow> wf_obj h ob' = wf_obj h ob"
  by (simp add: wf_obj_def)

lemma view_switch:
  "view h (ob\<lparr>o_currentPlayer := - o_currentPlayer ob\<rparr>) = switchPlayer (view h ob)"
  by (simp add: view_def switchPlayer_def)

text \<open>\<open>applyMove\<close> on an object is \<open>applyMove\<close> on the grid it shows, and writes only into
  the rows of that object.\<close>

lemma h_applyMove_sim:
  assumes wf: "wf_obj h ob"
  shows "(\<forall>e. h_applyMove h ob x y p = Inl e \<longrightarrow> applyMove (view h ob) x y p = Inl e)
    \<and> (\<forall>ok h' ob'. h_applyMove h ob x y p = Inr (ok, h', ob') \<longrightarrow>
          applyMove (view h ob) x y p = Inr (ok, view h' ob')
          \<and> frame ob h h' \<and> o_board ob' = o_board ob)"
proof (cases "isValidMove (view h ob) x y p")
  case (Inl e)
  then show ?thesis by (simp add: h_applyMove_def applyMove_def)
next
  case (Inr ok)
  show ?thesis
  proof (cases ok)
    case False
    with Inr show ?thesis by (simp add: h_applyMove_def applyMove_def frame_refl)
  next
    case True
    note sim1 = h_set_cell_sim [OF wf, of x y p]
    show ?thesis
    proof (cases "h_set_cell h ob x y p")
      case (Inl e)
      with sim1 Inr True show ?thesis by (simp add: h_applyMove_def applyMove_def)
    next
      case h1: (Inr h1)
      note fr1 = h_set_cell_frame [OF h1]
      from frame_wf_obj [OF fr1 wf] have wf1: "wf_obj h1 ob" .
      note sim2 = h_flipDirs_sim [OF wf1, of x y p directions]
      show ?thesis
      proof (cases "h_flipDirs h1 ob x y p directions")
        case (Inl e)
        with sim1 sim2 h1 Inr True show ?thesis
          by (simp add: h_applyMove_def applyMove_def)
      next
        case h2: (Inr h2)
        with sim2 have "frame ob h1 h2" by simp
        with fr1 have "frame ob h h2" by (rule frame_trans)
        with sim1 sim2 h1 h2 Inr True show ?thesis
          by (simp add: h_applyMove_def applyMove_def view_switch)
      qed
    qed
  qed
qed

lemma h_applyMove_Inl:
  "wf_obj h ob \<Longrightarrow> h_applyMove h ob x y p = Inl e \<Longrightarrow> applyMove (view h ob) x y p = Inl e"
  using h_applyMove_sim [of h ob x y p] by simp

lemma h_applyMove_Inr:
  "wf_obj h ob \<Longrightarrow> h_applyMove h ob x y p = Inr (ok, h', ob') \<Longrightarrow>
   applyMove (view h ob) x y p = Inr (ok, view h' ob') \<and> frame ob h h' \<and> o_board ob' = o_board ob"
  using h_applyMove_sim [of h ob x y p] by simp

lemma h_applyMoves_Inl:
  "wf_obj h ob \<Longrightarrow> h_applyMoves h ob ms = Inl e \<Longrightarrow> applyMoves (view h ob) ms = Inl e"
proof (induction ms arbitrary: h ob)
  case Nil
  then show ?case by simp
next
  case (Cons mv ms)
  obtain x y p where mv: "mv = (x, y, p)" by (cases mv)
  show ?case
  proof (cases "h_applyMove h ob x y p")
    case (Inl e')
    with Cons.prems(2) have "e' = e" by (simp add: mv)
    with h_applyMove_Inl [OF Cons.prems(1) Inl] show ?thesis by (simp add: mv)
  next
    case (Inr res)
    obtain ok h1 ob1 where res: "res = (ok, h1, ob1)" by (cases res)
    from h_applyMove_Inr [OF Cons.prems(1) Inr [unfolded res]]
    have a: "applyMove (view h ob) x y p = Inr (ok, view h1 ob1)"
      and fr: "frame ob h h1" and rows: "o_board ob1 = o_board ob"
      by simp_all
    from frame_wf_obj [OF fr Cons.prems(1)] have wf1: "wf_obj h1 ob1"
      by (simp add: wf_obj_same_rows [OF rows])
    from Cons.prems(2) Inr have "h_applyMoves h1 ob1 ms = Inl e" by (simp add: mv res)
    from Cons.IH [OF wf1 this] a show ?thesis by (simp add: mv)
  qed
qed

lemma h_applyMoves_Inr:
  "wf_obj h ob \<Longrightarrow> h_applyMoves h ob ms = Inr (h', ob') \<Longrightarrow>
   applyMoves (view h ob) ms = Inr (view h' ob') \<and> frame ob h h' \<and> o_board ob' = o_board ob"
proof (induction ms arbitrary: h ob)
  case Nil
  then show ?case by (simp add: frame_refl)
next
  case (Cons mv ms)
  obtain x y p where mv: "mv = (x, y, p)" by (cases mv)
  show ?case
  proof (cases "h_applyMove h ob x y p")
    case (Inl e')
    with Cons.prems(2) show ?thesis by (simp add: mv)
  next
    case (Inr res)
    obtain ok h1 ob1 where res: "res = (ok, h1, ob1)" by (cases res)
    from h_applyMove_Inr [OF Cons.prems(1) Inr [unfolded res]]
    have a: "applyMove (view h ob) x y p = Inr (ok, view h1 ob1)"
      and fr: "frame ob h h1" and rows: "o_board ob1 = o_board ob"
      by simp_all
    from frame_wf_obj [OF fr Cons.prems(1)] have wf1: "wf_obj h1 ob1"
      by (simp add: wf_obj_same_rows [OF rows])
    from Cons.prems(2) Inr have "h_applyMoves h1 ob1 ms = Inr (h', ob')" by (simp add: mv res)
    from Cons.IH [OF wf1 this]
    have r: "applyMoves (view h1 ob1) ms = Inr (view h' ob')" "frame ob1 h1 h'"
      "o_board ob' = o_board ob1" by simp_all
    from r(2) have "frame ob h1 h'" by (simp add: frame_same_rows [OF rows])
    with fr have "frame ob h h'" by (rule frame_trans)
    with r(1,3) a rows show ?thesis by (simp add: mv)
  qed
qed

section \<open>The constructor and \<open>clone\<close> in the store\<close>

lemma h_init_sim:
  assumes wf: "wf_obj h ob"
  shows "(\<forall>e. h_init h ob = Inl e \<longrightarrow> init (view h ob) = Inl e)
    \<and> (\<forall>h'. h_init h ob = Inr h' \<longrightarrow> init (view h ob) = Inr (view h' ob) \<and> frame ob h h')"
proof (cases "o_size ob mod 2 \<noteq> 0")
  case True
  then show ?thesis by (simp add: init_def h_init_def)
next
  case False
  define mid where "mid = o_size ob div 2"
  have i: "init (view h ob) =
        (case set_cell (view h ob) (mid - 1) (mid - 1) (-1) of
           Inl e \<Rightarrow> Inl e
         | Inr b1 \<Rightarrow>
             (case set_cell b1 mid mid (-1) of
                Inl e \<Rightarrow> Inl e
              | Inr b2 \<Rightarrow>
                  (case set_cell b2 mid (mid - 1) 1 of
                     Inl e \<Rightarrow> Inl e
                   | Inr b3 \<Rightarrow> set_cell b3 (mid - 1) mid 1)))"
    using False unfolding mid_def by (simp add: init_def Let_def)
  have hi: "h_init h ob =
        (case h_set_cell h ob (mid - 1) (mid - 1) (-1) of
           Inl e \<Rightarrow> Inl e
         | Inr h1 \<Rightarrow>
             (case h_set_cell h1 ob mid mid (-1) of
                Inl e \<Rightarrow> Inl e
              | Inr h2 \<Rightarrow>
                  (case h_set_cell h2 ob mid (mid - 1) 1 of
                     Inl e \<Rightarrow> Inl e
                   | Inr h3 \<Rightarrow> h_set_cell h3 ob (mid - 1) mid 1)))"
    using False unfolding mid_def by (simp add: h_init_def Let_def)
  note s1 = h_set_cell_sim [OF wf, of "mid - 1" "mid - 1" "- 1"]
  show ?thesis
  proof (cases "h_set_cell h ob (mid - 1) (mid - 1) (- 1)")
    case (Inl e)
    with s1 show ?thesis by (simp add: i hi)
  next
    case h1: (Inr h1)
    note f1 = h_set_cell_frame [OF h1]
    from frame_wf_obj [OF f1 wf] have wf1: "wf_obj h1 ob" .
    note s2 = h_set_cell_sim [OF wf1, of mid mid "- 1"]
    show ?thesis
    proof (cases "h_set_cell h1 ob mid mid (- 1)")
      case (Inl e)
      with s1 s2 h1 show ?thesis by (simp add: i hi)
    next
      case h2: (Inr h2)
      note f2 = frame_trans [OF f1 h_set_cell_frame [OF h2]]
      from frame_wf_obj [OF f2 wf] have wf2: "wf_obj h2 ob" .
      note s3 = h_set_cell_sim [OF wf2, of mid "mid - 1" 1]
      show ?thesis
      proof (cases "h_set_cell h2 ob mid (mid - 1) 1")
        case (Inl e)
        with s1 s2 s3 h1 h2 show ?thesis by (simp add: i hi)
      next
        case h3: (Inr h3)
        note f3 = frame_trans [OF f2 h_set_cell_frame [OF h3]]
        from frame_wf_obj [OF f3 wf] have wf3: "wf_obj h3 ob" .
        note s4 = h_set_cell_sim [OF wf3, of "mid - 1" mid 1]
        show ?thesis
        proof (cases "h_set_cell h3 ob (mid - 1) mid 1")
          case (Inl e)
          with s1 s2 s3 s4 h1 h2 h3 show ?thesis by (simp add: i hi)
        next
          case h4: (Inr h4)
          note f4 = frame_trans [OF f3 h_set_cell_frame [OF h4]]
          with s1 s2 s3 s4 h1 h2 h3 h4 show ?thesis by (simp add: i hi)
        qed
      qed
    qed
  qed
qed


lemma set_cell_wf:
  assumes wf: "wf_board b" and inb: "inBounds b x y"
  shows "\<exists>b'. set_cell b x y v = Inr b' \<and> wf_board b' \<and> size_b b' = size_b b"
proof -
  from wf inb have y: "0 \<le> y" "y < int (length (board b))" "nat y < length (board b)"
    by (auto simp: wf_board_def inBounds_def)
  then have "board b ! nat y \<in> set (board b)" by simp
  with wf have len: "int (length (board b ! nat y)) = size_b b"
    by (simp add: wf_board_def)
  with inb have x: "0 \<le> x" "x < int (length (board b ! nat y))"
    by (simp_all add: inBounds_def)
  let ?b' = "b\<lparr>board := (board b)[nat y := (board b ! nat y)[nat x := v]]\<rparr>"
  from y x have s: "set_cell b x y v = Inr ?b'"
    by (simp add: set_cell_def row_at_def)
  have "int (length r) = size_b b" if "r \<in> set ((board b)[nat y := (board b ! nat y)[nat x := v]])" for r
  proof -
    from that have "r = (board b ! nat y)[nat x := v] \<or> r \<in> set (board b)"
      using set_update_subset_insert [of "board b" "nat y"] by auto
    with wf len show ?thesis by (auto simp: wf_board_def)
  qed
  with wf have "wf_board ?b'" by (simp add: wf_board_def)
  with s show ?thesis by simp
qed

lemma new_ReversiBoard_even:
  assumes n: "n mod 2 = 0" "2 \<le> n"
  shows "\<exists>b. new_ReversiBoard n = Inr b \<and> wf_board b \<and> size_b b = n"
proof -
  define mid where "mid = n div 2"
  from n have m: "0 \<le> mid - 1" "mid < n" by (simp_all add: mid_def)
  let ?b0 = "\<lparr>size_b = n, board = replicate (nat n) (replicate (nat n) 0), currentPlayer = 1\<rparr>"
  have wf0: "wf_board ?b0" and s0: "size_b ?b0 = n" using n by (simp_all add: wf_board_def)
  have inb: "inBounds b (mid - 1) (mid - 1)" "inBounds b mid mid" "inBounds b mid (mid - 1)"
    "inBounds b (mid - 1) mid" if "size_b b = n" for b
    using m that by (simp_all add: inBounds_def)
  from set_cell_wf [OF wf0 inb(1) [OF s0], of "- 1"] obtain b1 where
    b1: "set_cell ?b0 (mid - 1) (mid - 1) (- 1) = Inr b1" "wf_board b1" "size_b b1 = n"
    by auto
  from set_cell_wf [OF b1(2) inb(2) [OF b1(3)], of "- 1"] b1(3) obtain b2 where
    b2: "set_cell b1 mid mid (- 1) = Inr b2" "wf_board b2" "size_b b2 = n"
    by auto
  from set_cell_wf [OF b2(2) inb(3) [OF b2(3)], of 1] b2(3) obtain b3 where
    b3: "set_cell b2 mid (mid - 1) 1 = Inr b3" "wf_board b3" "size_b b3 = n"
    by auto
  from set_cell_wf [OF b3(2) inb(4) [OF b3(3)], of 1] b3(3) obtain b4 where
    b4: "set_cell b3 (mid - 1) mid 1 = Inr b4" "wf_board b4" "size_b b4 = n"
    by auto
  have "new_ReversiBoard n = Inr b4"
    using n(1) b1(1) b2(1) b3(1) b4(1) unfolding mid_def
    by (simp add: new_ReversiBoard_def init_def Let_def)
  with b4 show ?thesis by blast
qed

lemma nth_append_upt:
  "map (\<lambda>r. (h @ xs) ! r) [length h ..< length h + length xs] = xs"
  by (rule nth_equalityI) (simp_all add: nth_append)

lemma h_new_props:
  assumes "h_new h n = Inr (h1, c0)"
  shows "length h1 = length h + nat n" "\<forall>r < length h. h1 ! r = h ! r" "o_size c0 = n"
    "new_ReversiBoard n = Inr (view h1 c0)"
proof -
  let ?h0 = "h @ replicate (nat n) (replicate (nat n) 0)"
  let ?ob = "\<lparr>o_size = n, o_board = [length h ..< length h + nat n], o_currentPlayer = 1\<rparr>"
  from assms have i: "h_init ?h0 ?ob = Inr h1" and c0: "c0 = ?ob"
    by (auto simp: h_new_def Let_def split: sum.splits)
  have wf: "wf_obj ?h0 ?ob" by (simp add: wf_obj_def)
  from h_init_sim [OF wf] i have sim: "init (view ?h0 ?ob) = Inr (view h1 ?ob)"
    and fr: "frame ?ob ?h0 h1" by simp_all
  from fr show "length h1 = length h + nat n" by (simp add: frame_def)
  from fr show "\<forall>r < length h. h1 ! r = h ! r" by (simp add: frame_def nth_append)
  from c0 show "o_size c0 = n" by simp
  have "view ?h0 ?ob
      = \<lparr>size_b = n, board = replicate (nat n) (replicate (nat n) 0), currentPlayer = 1\<rparr>"
    using nth_append_upt [of h "replicate (nat n) (replicate (nat n) 0)"]
    by (simp add: view_def)
  with sim c0 show "new_ReversiBoard n = Inr (view h1 c0)"
    by (simp add: new_ReversiBoard_def)
qed

lemma h_new_even:
  assumes n: "n mod 2 = 0" "2 \<le> n"
  shows "\<exists>h1 c0. h_new h n = Inr (h1, c0)"
proof -
  let ?h0 = "h @ replicate (nat n) (replicate (nat n) 0)"
  let ?ob = "\<lparr>o_size = n, o_board = [length h ..< length h + nat n], o_currentPlayer = 1\<rparr>"
  have wf: "wf_obj ?h0 ?ob" by (simp add: wf_obj_def)
  have v: "view ?h0 ?ob
      = \<lparr>size_b = n, board = replicate (nat n) (replicate (nat n) 0), currentPlayer = 1\<rparr>"
    using nth_append_upt [of h "replicate (nat n) (replicate (nat n) 0)"]
    by (simp add: view_def)
  from new_ReversiBoard_even [OF n] obtain b where "init (view ?h0 ?ob) = Inr b"
    by (auto simp: new_ReversiBoard_def v)
  with h_init_sim [OF wf] obtain h1 where "h_init ?h0 ?ob = Inr h1"
    by (cases "h_init ?h0 ?ob") auto
  then show ?thesis by (simp add: h_new_def Let_def)
qed

text \<open>The rows of a clone are new arrays with the cells of the original.\<close>

lemma h_clone_props:
  assumes wf: "wf_obj h ob" and cl: "h_clone h ob = Inr (h2, c)"
  shows "view h2 c = view h ob" "view h2 ob = view h ob" "wf_obj h2 ob" "wf_obj h2 c"
    "separate ob c" "clone (view h ob) = Inr (view h2 c)"
proof -
  from cl obtain h1 c0 where new: "h_new h (o_size ob) = Inr (h1, c0)"
    and h2: "h2 = h1 @ map (\<lambda>r. h1 ! r) (o_board ob)"
    and c: "c = c0\<lparr>o_board := [length h1 ..< length h1 + length (o_board ob)],
                  o_currentPlayer := o_currentPlayer ob\<rparr>"
    by (auto simp: h_clone_def split: sum.splits)
  note p = h_new_props [OF new]
  from wf have alloc: "\<forall>r \<in> set (o_board ob). r < length h" and dist: "distinct (o_board ob)"
    by (simp_all add: wf_obj_def)
  from alloc p(1) have alloc1: "\<forall>r \<in> set (o_board ob). r < length h1" by auto
  have same: "map (\<lambda>r. h1 ! r) (o_board ob) = map (\<lambda>r. h ! r) (o_board ob)"
    using alloc p(2) by simp
  have old: "map (\<lambda>r. h2 ! r) (o_board ob) = map (\<lambda>r. h ! r) (o_board ob)"
    using alloc alloc1 p(2) by (simp add: h2 nth_append)
  have "map (\<lambda>r. h2 ! r) [length h1 ..< length h1 + length (o_board ob)]
      = map (\<lambda>r. h1 ! r) (o_board ob)"
    using nth_append_upt [of h1 "map (\<lambda>r. h1 ! r) (o_board ob)"] by (simp add: h2)
  with same p(3) show vc: "view h2 c = view h ob" by (simp add: view_def c)
  from old show "view h2 ob = view h ob" by (simp add: view_def)
  from alloc1 dist show "wf_obj h2 ob" by (auto simp: wf_obj_def h2)
  show "wf_obj h2 c" by (simp add: wf_obj_def c h2)
  from alloc1 show "separate ob c" by (auto simp: separate_def c)
  from p(3,4) have "clone (view h ob) = Inr (view h ob)"
    by (simp add: clone_def view_def)
  with vc show "clone (view h ob) = Inr (view h2 c)" by simp
qed

lemma separate_sym: "separate ob ob' \<Longrightarrow> separate ob' ob"
  by (auto simp: separate_def)

text \<open>
  Claim C9. A board object whose size the constructor accepts (even, at least 2) can be
  cloned. The clone shows the same grid and turn flag, shares no row array with the
  original, and \<open>clone\<close> leaves the original as it was. A sequence of moves applied to the
  original leaves the clone as it was; the same sequence applied to the clone afterwards
  leaves the original as it is, and ends in the same grid and turn flag, which are those
  of the sequence applied to the grid as a value.
\<close>

theorem clone_is_deep_copy:
  assumes wf: "wf_obj h ob" and size: "o_size ob mod 2 = 0" "2 \<le> o_size ob"
  shows "\<exists>h1 c. h_clone h ob = Inr (h1, c)
      \<and> view h1 c = view h ob \<and> view h1 ob = view h ob \<and> separate ob c
      \<and> (\<forall>ms h2 ob2. h_applyMoves h1 ob ms = Inr (h2, ob2) \<longrightarrow>
            applyMoves (view h ob) ms = Inr (view h2 ob2)
            \<and> view h2 c = view h ob
            \<and> (\<exists>h3 c3. h_applyMoves h2 c ms = Inr (h3, c3)
                  \<and> view h3 c3 = view h2 ob2 \<and> view h3 ob2 = view h2 ob2))"
proof -
  from h_new_even [OF size, of h] obtain h1 c where cl: "h_clone h ob = Inr (h1, c)"
    by (auto simp: h_clone_def)
  note p = h_clone_props [OF wf cl]
  have run: "applyMoves (view h ob) ms = Inr (view h2 ob2)
            \<and> view h2 c = view h ob
            \<and> (\<exists>h3 c3. h_applyMoves h2 c ms = Inr (h3, c3)
                  \<and> view h3 c3 = view h2 ob2 \<and> view h3 ob2 = view h2 ob2)"
    if r: "h_applyMoves h1 ob ms = Inr (h2, ob2)" for ms h2 ob2
  proof -
    from h_applyMoves_Inr [OF p(3) r] p(2)
    have a: "applyMoves (view h ob) ms = Inr (view h2 ob2)" and fr: "frame ob h1 h2"
      and rows: "o_board ob2 = o_board ob" by simp_all
    from frame_view [OF fr p(5) p(4)] p(1) have vc: "view h2 c = view h ob" by simp
    from frame_wf_obj [OF fr p(4)] have wfc: "wf_obj h2 c" .
    from frame_wf_obj [OF fr p(3)] have wfo: "wf_obj h2 ob2"
      by (simp add: wf_obj_same_rows [OF rows])
    obtain h3 c3 where r3: "h_applyMoves h2 c ms = Inr (h3, c3)"
    proof (cases "h_applyMoves h2 c ms")
      case (Inl e)
      from h_applyMoves_Inl [OF wfc Inl] vc a show ?thesis by simp
    next
      case (Inr res)
      with that show ?thesis by (cases res) auto
    qed
    from h_applyMoves_Inr [OF wfc r3] vc a
    have v3: "view h3 c3 = view h2 ob2" and fr3: "frame c h2 h3" by simp_all
    from p(5) rows have "separate c ob2" by (simp add: separate_def Int_commute)
    from frame_view [OF fr3 this wfo] have "view h3 ob2 = view h2 ob2" .
    with a vc r3 v3 show ?thesis by blast
  qed
  from cl p(1,2,5) run show ?thesis by blast
qed

theorem clone_is_deep_copy_witness:
  "wf_obj store4 obj4 \<and> o_size obj4 mod 2 = 0 \<and> 2 \<le> o_size obj4
   \<and> h_clone store4 obj4 = Inr (store4_cloned, obj4_clone)
   \<and> view store4_cloned obj4_clone = view store4 obj4
   \<and> separate obj4 obj4_clone
   \<and> h_applyMoves store4_cloned obj4 [(1, 0, 1)] = Inr (store4_moved, obj4_moved)
   \<and> view store4_moved obj4_clone = view store4 obj4
   \<and> (\<exists>h3 c3. h_applyMoves store4_moved obj4_clone [(1, 0, 1)] = Inr (h3, c3)
         \<and> view h3 c3 = view store4_moved obj4_moved
         \<and> view h3 obj4_moved = view store4_moved obj4_moved)"
proof -
  have wf: "wf_obj store4 obj4"
    by (simp add: wf_obj_def store4_def obj4_def)
  have sz: "o_size obj4 mod 2 = 0" "2 \<le> o_size obj4"
    by (simp_all add: obj4_def)
  have cl: "h_clone store4 obj4 = Inr (store4_cloned, obj4_clone)"
    by code_simp
  have mv: "h_applyMoves store4_cloned obj4 [(1, 0, 1)] = Inr (store4_moved, obj4_moved)"
    by code_simp
  from clone_is_deep_copy [OF wf sz] cl
  have c: "view store4_cloned obj4_clone = view store4 obj4" "separate obj4 obj4_clone"
    and run: "\<forall>ms h2 ob2. h_applyMoves store4_cloned obj4 ms = Inr (h2, ob2) \<longrightarrow>
            applyMoves (view store4 obj4) ms = Inr (view h2 ob2)
            \<and> view h2 obj4_clone = view store4 obj4
            \<and> (\<exists>h3 c3. h_applyMoves h2 obj4_clone ms = Inr (h3, c3)
                  \<and> view h3 c3 = view h2 ob2 \<and> view h3 ob2 = view h2 ob2)"
    by auto
  from run [rule_format, OF mv] wf sz cl c mv show ?thesis by simp
qed

section \<open>Faults\<close>

text \<open>The loops of the program run over \<open>directions\<close>, none of which is \<open>(0, 0)\<close>, and write
  only cells they have read: the only fault is the \<open>TypeError\<close> of a missing row, and on a
  well-formed board there is none.\<close>

lemma cell_at_fault: "cell_at b x y = Inl e \<Longrightarrow> e = TypeError"
  by (auto simp: cell_at_def split: option.splits)

lemma walkValid_fault:
  "\<not> (fst d = 0 \<and> snd d = 0) \<Longrightarrow> walkValid b p d st = Inl e \<Longrightarrow> e = TypeError"
proof (induction b p d st rule: walkValid.induct)
  case (1 b player dx dy nx ny foundOpponent)
  note w = walkValid.simps [of b player dx dy nx ny foundOpponent]
  show ?case
  proof (cases "inBounds b nx ny")
    case False
    with "1.prems"(2) w show ?thesis by simp
  next
    case True
    show ?thesis
    proof (cases "cell_at b nx ny")
      case (Inl e')
      with True "1.prems"(2) w have "e' = e" by simp
      with Inl show ?thesis by (simp add: cell_at_fault)
    next
      case (Inr v)
      show ?thesis
      proof (cases "v = Some (- player)")
        case False
        with True Inr "1.prems"(2) w show ?thesis by simp
      next
        case opp: True
        from "1.prems"(1) have nz: "\<not> (dx = 0 \<and> dy = 0)" by simp
        with True Inr opp "1.prems"(2) w
        have "walkValid b player (dx, dy) (nx + dx, ny + dy, True) = Inl e" by simp
        from "1.IH" [OF True Inr opp nz "1.prems"(1) this] show ?thesis .
      qed
    qed
  qed
qed

lemma walkFlips_fault:
  "\<not> (fst d = 0 \<and> snd d = 0) \<Longrightarrow> walkFlips b p d st = Inl e \<Longrightarrow> e = TypeError"
proof (induction b p d st rule: walkFlips.induct)
  case (1 b player dx dy nx ny flips)
  note w = walkFlips.simps [of b player dx dy nx ny flips]
  show ?case
  proof (cases "inBounds b nx ny")
    case False
    with "1.prems"(2) w show ?thesis by simp
  next
    case True
    show ?thesis
    proof (cases "cell_at b nx ny")
      case (Inl e')
      with True "1.prems"(2) w have "e' = e" by simp
      with Inl show ?thesis by (simp add: cell_at_fault)
    next
      case (Inr v)
      show ?thesis
      proof (cases "v = Some (- player)")
        case False
        with True Inr "1.prems"(2) w show ?thesis by simp
      next
        case opp: True
        from "1.prems"(1) have nz: "\<not> (dx = 0 \<and> dy = 0)" by simp
        with True Inr opp "1.prems"(2) w
        have "walkFlips b player (dx, dy) (nx + dx, ny + dy, flips @ [(nx, ny)]) = Inl e"
          by simp
        from "1.IH" [OF True Inr opp nz "1.prems"(1) this] show ?thesis .
      qed
    qed
  qed
qed

lemma validDirs_fault:
  "\<forall>d \<in> set ds. \<not> (fst d = 0 \<and> snd d = 0) \<Longrightarrow> validDirs b x y p ds = Inl e \<Longrightarrow>
   e = TypeError"
proof (induction ds)
  case Nil
  then show ?case by simp
next
  case (Cons d ds)
  obtain dx dy where d: "d = (dx, dy)" by (cases d)
  from Cons.prems(1) have nz: "\<not> (fst (dx, dy) = 0 \<and> snd (dx, dy) = 0)" by (simp add: d)
  show ?case
  proof (cases "walkValid b p (dx, dy) (x + dx, y + dy, False)")
    case (Inl e')
    with Cons.prems(2) have "e' = e" by (simp add: d)
    with walkValid_fault [OF nz Inl] show ?thesis by simp
  next
    case (Inr res)
    obtain nx ny found where res: "res = (nx, ny, found)" by (cases res)
    from Cons.prems(2) Inr
    have "cell_at b nx ny = Inl e \<or> validDirs b x y p ds = Inl e"
      by (auto simp: d res split: if_splits sum.splits)
    with Cons.IH Cons.prems(1) show ?thesis by (auto dest: cell_at_fault)
  qed
qed

lemma directions_all_nonzero: "\<forall>d \<in> set directions. \<not> (fst d = 0 \<and> snd d = 0)"
  by (simp add: directions_def)

lemma isValidMove_fault: "isValidMove b x y p = Inl e \<Longrightarrow> e = TypeError"
  using validDirs_fault [OF directions_all_nonzero, of b x y p e]
  by (auto simp: isValidMove_def split: sum.splits if_splits dest: cell_at_fault)

lemma set_cell_on_grid:
  "cell_at b x y = Inr (Some u) \<Longrightarrow> \<exists>b'. set_cell b x y v = Inr b'"
  by (auto simp: cell_at_def set_cell_def split: option.splits if_splits)

lemma flipAll_on_grid:
  "\<forall>c \<in> set fs. \<exists>u. cell_at b (fst c) (snd c) = Inr (Some u) \<Longrightarrow> \<exists>b'. flipAll b p fs = Inr b'"
proof (induction fs arbitrary: b)
  case Nil
  then show ?case by simp
next
  case (Cons f fs)
  obtain fx fy where f: "f = (fx, fy)" by (cases f)
  from Cons.prems obtain u where "cell_at b fx fy = Inr (Some u)" by (auto simp: f)
  from set_cell_on_grid [OF this] obtain b1 where s: "set_cell b fx fy p = Inr b1" by blast
  have "\<exists>u. cell_at b1 (fst c) (snd c) = Inr (Some u)" if "c \<in> set fs" for c
  proof (cases "fst c = fx \<and> snd c = fy")
    case True
    with cell_at_set_cell_same [OF s] show ?thesis by simp
  next
    case False
    from cell_at_set_cell_other [OF s False] Cons.prems that show ?thesis by simp
  qed
  with Cons.IH [of b1] s show ?case by (simp add: f)
qed

lemma flipDir_fault:
  assumes nz: "\<not> (fst d = 0 \<and> snd d = 0)" and f: "flipDir b x y p d = Inl e"
  shows "e = TypeError"
proof (cases "walkFlips b p d (x + fst d, y + snd d, [])")
  case (Inl e')
  with f have "e' = e" by (simp add: flipDir_def)
  with walkFlips_fault [OF nz Inl] show ?thesis by simp
next
  case (Inr res)
  obtain nx ny flips where res: "res = (nx, ny, flips)" by (cases res)
  from walkFlips_cells [OF Inr [unfolded res]]
  have "\<forall>c \<in> set flips. \<exists>u. cell_at b (fst c) (snd c) = Inr (Some u)" by simp
  from flipAll_on_grid [OF this, of p] obtain b' where "flipAll b p flips = Inr b'" by blast
  with f Inr have "cell_at b nx ny = Inl e"
    by (auto simp: flipDir_def res split: if_splits sum.splits)
  then show ?thesis by (rule cell_at_fault)
qed

lemma flipDirs_fault:
  "\<forall>d \<in> set ds. \<not> (fst d = 0 \<and> snd d = 0) \<Longrightarrow> flipDirs b x y p ds = Inl e \<Longrightarrow>
   e = TypeError"
proof (induction ds arbitrary: b)
  case Nil
  then show ?case by simp
next
  case (Cons d ds)
  show ?case
  proof (cases "flipDir b x y p d")
    case (Inl e')
    with Cons.prems(2) have "e' = e" by simp
    with flipDir_fault [OF _ Inl] Cons.prems(1) show ?thesis by simp
  next
    case (Inr b1)
    with Cons.prems(2) have "flipDirs b1 x y p ds = Inl e" by simp
    with Cons.IH [of b1] Cons.prems(1) show ?thesis by simp
  qed
qed

lemma applyMove_fault: "applyMove b x y p = Inl e \<Longrightarrow> e = TypeError"
proof (cases "isValidMove b x y p")
  case (Inl e')
  assume "applyMove b x y p = Inl e"
  with Inl have "e' = e" by (simp add: applyMove_def)
  with isValidMove_fault [OF Inl] show ?thesis by simp
next
  case (Inr ok)
  assume a: "applyMove b x y p = Inl e"
  with Inr have ok: "ok" by (auto simp: applyMove_def split: if_splits)
  from set_cell_on_grid [OF isValidMove_True_cell [OF Inr [unfolded eqTrueI [OF ok]]], of p]
  obtain b1 where s: "set_cell b x y p = Inr b1" by blast
  with a Inr ok have "flipDirs b1 x y p directions = Inl e"
    by (auto simp: applyMove_def split: sum.splits)
  from flipDirs_fault [OF directions_all_nonzero this] show ?thesis .
qed


section \<open>Well-formed boards stay well-formed\<close>

lemma isGameOver_total:
  assumes "wf_board b"
  shows "\<exists>go. isGameOver b = Inr go"
  using getValidMoves_wf [OF assms, of 1] getValidMoves_wf [OF assms, of "- 1"]
  by (auto simp: isGameOver_def)

lemma set_cell_wf_preserved:
  assumes s: "set_cell b x y v = Inr b'" and wf: "wf_board b"
  shows "wf_board b' \<and> size_b b' = size_b b"
proof -
  note i = set_cell_Inr [OF s]
  from i(2) have "board b ! nat y \<in> set (board b)" by (rule nth_mem)
  with wf have "int (length (board b ! nat y)) = size_b b" "int (length (board b)) = size_b b"
    by (simp_all add: wf_board_def)
  with i(1-4) have "inBounds b x y" unfolding inBounds_def by linarith
  from set_cell_wf [OF wf this, of v] s show ?thesis by simp
qed

lemma flipAll_wf:
  "wf_board b \<Longrightarrow> flipAll b p fs = Inr b' \<Longrightarrow> wf_board b' \<and> size_b b' = size_b b"
proof (induction fs arbitrary: b)
  case Nil
  then show ?case by simp
next
  case (Cons f fs)
  obtain fx fy where f: "f = (fx, fy)" by (cases f)
  from Cons.prems(2) obtain b1 where
    s: "set_cell b fx fy p = Inr b1" and r: "flipAll b1 p fs = Inr b'"
    by (auto simp: f split: sum.splits)
  from set_cell_wf_preserved [OF s Cons.prems(1)] Cons.IH [OF _ r] show ?case by simp
qed

lemma walkFlips_wf:
  "wf_board b \<Longrightarrow> \<not> (fst d = 0 \<and> snd d = 0) \<Longrightarrow> \<exists>r. walkFlips b p d st = Inr r"
proof (induction b p d st rule: walkFlips.induct)
  case (1 b player dx dy nx ny flips)
  note w = walkFlips.simps [of b player dx dy nx ny flips]
  show ?case
  proof (cases "inBounds b nx ny")
    case False
    with w show ?thesis by simp
  next
    case True
    note c = cell_at_wf [OF "1.prems"(1) True]
    show ?thesis
    proof (cases "board b ! nat ny ! nat nx = - player")
      case False
      with True c w show ?thesis by simp
    next
      case opp: True
      from "1.prems"(2) have nz: "\<not> (dx = 0 \<and> dy = 0)" by simp
      from "1.IH" [OF True c _ nz "1.prems"] opp True c nz w show ?thesis by simp
    qed
  qed
qed

lemma flipDir_wf:
  assumes wf: "wf_board b" and nz: "\<not> (fst d = 0 \<and> snd d = 0)"
  shows "\<exists>b'. flipDir b x y p d = Inr b' \<and> wf_board b' \<and> size_b b' = size_b b"
proof -
  from walkFlips_wf [OF wf nz, of p "(x + fst d, y + snd d, [])"]
  obtain nx ny flips where w: "walkFlips b p d (x + fst d, y + snd d, []) = Inr (nx, ny, flips)"
    by (metis prod_cases3)
  from walkFlips_cells [OF w]
  have "\<forall>c \<in> set flips. \<exists>u. cell_at b (fst c) (snd c) = Inr (Some u)" by simp
  from flipAll_on_grid [OF this, of p] obtain b1 where f: "flipAll b p flips = Inr b1" by blast
  note wf1 = flipAll_wf [OF wf f]
  show ?thesis
  proof (cases "inBounds b nx ny")
    case False
    with w wf show ?thesis by (simp add: flipDir_def)
  next
    case True
    from cell_at_wf [OF wf True] w f wf wf1 True show ?thesis
      by (simp add: flipDir_def)
  qed
qed

lemma flipDirs_wf:
  "wf_board b \<Longrightarrow> \<forall>d \<in> set ds. \<not> (fst d = 0 \<and> snd d = 0) \<Longrightarrow>
   \<exists>b'. flipDirs b x y p ds = Inr b' \<and> wf_board b' \<and> size_b b' = size_b b"
proof (induction ds arbitrary: b)
  case Nil
  then show ?case by simp
next
  case (Cons d ds)
  from Cons.prems(2) have nz: "\<not> (fst d = 0 \<and> snd d = 0)" by simp
  from flipDir_wf [OF Cons.prems(1) nz, of x y p] obtain b1 where
    b1: "flipDir b x y p d = Inr b1" "wf_board b1" "size_b b1 = size_b b" by blast
  from Cons.IH [OF b1(2)] Cons.prems(2) obtain b' where
    "flipDirs b1 x y p ds = Inr b'" "wf_board b'" "size_b b' = size_b b1" by auto
  with b1 show ?case by simp
qed

text \<open>On a well-formed board \<open>applyMove\<close> returns for every row \<open>y\<close> of the grid, and leaves
  a well-formed board of the same size.\<close>

lemma applyMove_wf:
  assumes wf: "wf_board b" and y: "0 \<le> y" "y < size_b b"
  shows "\<exists>ok b'. applyMove b x y p = Inr (ok, b') \<and> wf_board b' \<and> size_b b' = size_b b"
proof -
  from isValidMove_total [OF wf y, of x p] obtain ok where v: "isValidMove b x y p = Inr ok"
    by blast
  show ?thesis
  proof (cases ok)
    case False
    with v have "applyMove b x y p = Inr (False, b)" by (simp add: applyMove_def)
    with wf show ?thesis by blast
  next
    case True
    with v have v': "isValidMove b x y p = Inr True" by simp
    from set_cell_on_grid [OF isValidMove_True_cell [OF v'], of p]
    obtain b1 where s: "set_cell b x y p = Inr b1" by blast
    note wf1 = set_cell_wf_preserved [OF s wf]
    from flipDirs_wf [of b1 directions x y p] wf1 directions_all_nonzero
    obtain b2 where f: "flipDirs b1 x y p directions = Inr b2" "wf_board b2"
      "size_b b2 = size_b b1" by blast
    from v' s f have "applyMove b x y p = Inr (True, switchPlayer b2)"
      by (simp add: applyMove_def)
    moreover from f wf1 have "wf_board (switchPlayer b2)" "size_b (switchPlayer b2) = size_b b"
      by (simp_all add: switchPlayer_def wf_board_def)
    ultimately show ?thesis by blast
  qed
qed


section \<open>The search on boards the constructor can build\<close>

lemma clone_playable:
  assumes "playable b"
  shows "clone b = Inr b"
proof -
  from assms new_ReversiBoard_even [of "size_b b"] obtain c where
    "new_ReversiBoard (size_b b) = Inr c" "size_b c = size_b b"
    by (auto simp: playable_def)
  then show ?thesis by (simp add: clone_def)
qed

lemma applyMove_playable:
  assumes "playable b" "inBounds b x y"
  shows "\<exists>ok b'. applyMove b x y p = Inr (ok, b') \<and> playable b'"
proof -
  from assms applyMove_wf [of b y x p] obtain ok b' where
    "applyMove b x y p = Inr (ok, b')" "wf_board b'" "size_b b' = size_b b"
    by (auto simp: playable_def inBounds_def)
  with assms(1) show ?thesis by (auto simp: playable_def)
qed

lemma evaluateNum_playable:
  assumes "playable b"
  shows "\<exists>v. evaluateNum b p = Inr (Fin v)"
proof -
  from assms cornerScore_wf [of b p] obtain c where "cornerScore b p = Inr c"
    by (auto simp: playable_def)
  then show ?thesis by (simp add: evaluateNum_def evaluate_def)
qed

lemma gt_Fin_NegInfinity: "gt (Fin v) NegInfinity"
  by simp

lemma maxLoop_Fin:
  "\<forall>c \<in> set cs. \<exists>v. c = Some (Inr (Fin v)) \<Longrightarrow>
   \<exists>r. maxLoop acc cs = Some (Inr r) \<and> (r = acc \<or> (\<exists>v. r = Fin v))"
proof (induction cs arbitrary: acc)
  case Nil
  then show ?case by simp
next
  case (Cons c cs)
  from Cons.prems obtain v where c: "c = Some (Inr (Fin v))" by auto
  from Cons.IH [of "if gt (Fin v) acc then Fin v else acc"] Cons.prems
  show ?case by (auto simp: c)
qed

lemma minLoop_Fin:
  "\<forall>c \<in> set cs. \<exists>v. c = Some (Inr (Fin v)) \<Longrightarrow>
   \<exists>r. minLoop acc cs = Some (Inr r) \<and> (r = acc \<or> (\<exists>v. r = Fin v))"
proof (induction cs arbitrary: acc)
  case Nil
  then show ?case by simp
next
  case (Cons c cs)
  from Cons.prems obtain v where c: "c = Some (Inr (Fin v))" by auto
  from Cons.IH [of "if lt (Fin v) acc then Fin v else acc"] Cons.prems
  show ?case by (auto simp: c)
qed

text \<open>On such a board, at a depth \<open>d \<ge> 0\<close>, \<open>minimax\<close> returns a finite score within
  \<open>d + 1\<close> nested calls.\<close>

lemma minimax_playable:
  "playable b \<Longrightarrow> 0 \<le> d \<Longrightarrow> nat d < fuel \<Longrightarrow> \<exists>v. minimax fuel b d m M = Some (Inr (Fin v))"
proof (induction fuel arbitrary: b d m)
  case 0
  then show ?case by simp
next
  case (Suc fuel)
  note ev = evaluateNum_playable [OF Suc.prems(1), of M]
  from Suc.prems(1) have wf: "wf_board b" by (simp add: playable_def)
  show ?case
  proof (cases "d = 0")
    case True
    with ev show ?thesis by (simp add: minimax.simps)
  next
    case False
    with Suc.prems have d: "0 \<le> d - 1" "nat (d - 1) < fuel" by linarith+
    from isGameOver_total [OF wf] obtain go where go: "isGameOver b = Inr go" by blast
    show ?thesis
    proof (cases go)
      case True
      with go False ev show ?thesis by (simp add: minimax.simps)
    next
      case notover: False
      from getValidMoves_wf [OF wf, of m] obtain moves where
        moves: "getValidMoves b m = Inr moves" by blast
      show ?thesis
      proof (cases "length moves = 0")
        case True
        with go notover False moves Suc.IH [OF Suc.prems(1) d, of "- m"] show ?thesis
          by (simp add: minimax.simps)
      next
        case nonempty: False
        let ?child = "\<lambda>(x, y).
                       case clone b of
                         Inl e \<Rightarrow> Some (Inl e)
                       | Inr tmp \<Rightarrow>
                           (case applyMove tmp x y m of
                              Inl e \<Rightarrow> Some (Inl e)
                            | Inr (_, tmp') \<Rightarrow> minimax fuel tmp' (d - 1) (- m) M)"
        have "\<exists>v. ?child c = Some (Inr (Fin v))" if "c \<in> set moves" for c
        proof -
          obtain x y where c: "c = (x, y)" by (cases c)
          from getValidMoves_inBounds [OF moves that] have "inBounds b x y" by (simp add: c)
          from applyMove_playable [OF Suc.prems(1) this, of m] obtain ok b' where
            a: "applyMove b x y m = Inr (ok, b')" "playable b'" by blast
          from Suc.IH [OF a(2) d, of "- m"] a(1) clone_playable [OF Suc.prems(1)]
          show ?thesis by (simp add: c)
        qed
        then have all: "\<forall>c \<in> set (map ?child moves). \<exists>v. c = Some (Inr (Fin v))"
          by auto
        from nonempty obtain c cs where mc: "map ?child moves = c # cs"
          by (cases "map ?child moves") auto
        with all obtain v where cv: "c = Some (Inr (Fin v))" by auto
        from all mc have rest: "\<forall>c \<in> set cs. \<exists>v. c = Some (Inr (Fin v))" by simp
        have "\<exists>v. maxLoop NegInfinity (map ?child moves) = Some (Inr (Fin v))"
          using maxLoop_Fin [OF rest, of "Fin v"] by (auto simp: mc cv)
        moreover have "\<exists>v. minLoop PosInfinity (map ?child moves) = Some (Inr (Fin v))"
          using minLoop_Fin [OF rest, of "Fin v"] by (auto simp: mc cv lt_def)
        ultimately show ?thesis
          using go notover False moves nonempty by (simp add: minimax.simps Let_def)
      qed
    qed
  qed
qed


lemma greedyLoop_playable:
  assumes pl: "playable b"
  shows "\<forall>c \<in> set ms. inBounds b (fst c) (snd c) \<Longrightarrow>
    \<exists>r. greedyLoop b p (bm, bs) ms = Inr r \<and> (r = bm \<or> r \<in> Some ` set ms)"
proof (induction ms arbitrary: bm bs)
  case Nil
  then show ?case by simp
next
  case (Cons c ms)
  obtain x y where c: "c = (x, y)" by (cases c)
  from Cons.prems have "inBounds b x y" by (simp add: c)
  from applyMove_playable [OF pl this, of p] obtain ok b' where
    a: "applyMove b x y p = Inr (ok, b')" by blast
  from Cons.prems have rest: "\<forall>c \<in> set ms. inBounds b (fst c) (snd c)" by simp
  show ?case
  proof (cases "gt (Fin (stoneDiff b' p)) bs")
    case True
    from Cons.IH [OF rest, of "Some (x, y)" "Fin (stoneDiff b' p)"] True a clone_playable [OF pl]
    show ?thesis by (auto simp: c Let_def)
  next
    case False
    from Cons.IH [OF rest, of bm bs] False a clone_playable [OF pl]
    show ?thesis by (auto simp: c Let_def)
  qed
qed

lemma chooseGreedy_playable:
  assumes "playable b" "getValidMoves b p = Inr moves" "moves \<noteq> []"
  shows "\<exists>mv \<in> set moves. chooseGreedy b p moves = Inr (Some mv)"
proof -
  from assms(2) have "\<forall>c \<in> set moves. inBounds b (fst c) (snd c)"
    using getValidMoves_inBounds by blast
  from greedyLoop_playable [OF assms(1) this, of p "first_move moves" NegInfinity]
  obtain r where r: "chooseGreedy b p moves = Inr r" "r = first_move moves \<or> r \<in> Some ` set moves"
    by (auto simp: chooseGreedy_def)
  from assms(3) have "first_move moves \<in> Some ` set moves"
    by (cases moves) (simp_all add: first_move_def)
  with r show ?thesis by auto
qed

section \<open>The search: forced passes, and one ply against greedy\<close>

text \<open>
  Claim C6: at a depth \<open>d > 0\<close>, on a board that is not over and on which the mover \<open>m\<close> has
  no legal move, \<open>minimax(b, d, m, M)\<close> is \<open>minimax(b, d - 1, -m, M)\<close> on the same board:
  the outer call returns within one more nested call what the inner call returns, and
  both do return; on a board the constructor can build they return a finite score.
\<close>

theorem minimax_forced_pass:
  assumes d: "0 < d" and notover: "isGameOver b = Inr False"
    and nomoves: "getValidMoves b m = Inr []"
  shows "minimax (Suc fuel) b d m M = minimax fuel b (d - 1) (- m) M
    \<and> (\<exists>r. minimax (Suc (nat d)) b d m M = Some r
            \<and> minimax (nat d) b (d - 1) (- m) M = Some r)
    \<and> (playable b \<longrightarrow> (\<exists>v. minimax (Suc (nat d)) b d m M = Some (Inr (Fin v))))"
proof -
  have eq: "minimax (Suc fuel) b d m M = minimax fuel b (d - 1) (- m) M" for fuel
    using assms by (simp add: minimax.simps)
  from d have "0 \<le> d - 1" "nat (d - 1) < nat d" by linarith+
  from minimax_returns [OF this] obtain r where "minimax (nat d) b (d - 1) (- m) M = Some r"
    by blast
  moreover have "\<exists>v. minimax (Suc (nat d)) b d m M = Some (Inr (Fin v))" if "playable b"
    using minimax_playable [OF that, of d "Suc (nat d)" m M] d by simp
  ultimately show ?thesis using eq [of "nat d"] eq [of fuel] by simp
qed

theorem minimax_forced_pass_witness:
  "(0 :: int) < 2 \<and> isGameOver pass4 = Inr False \<and> getValidMoves pass4 (- 1) = Inr []
   \<and> minimax 3 pass4 2 (- 1) (- 1) = Some (Inr (Fin (- 8)))
   \<and> minimax 2 pass4 (2 - 1) (- (- 1)) (- 1) = Some (Inr (Fin (- 8)))"
proof -
  have d: "(0 :: int) < 2" by simp
  have o: "isGameOver pass4 = Inr False"
    by code_simp
  have n: "getValidMoves pass4 (- 1) = Inr []"
    by code_simp
  have v: "minimax 2 pass4 (2 - 1) (- (- 1)) (- 1) = Some (Inr (Fin (- 8)))"
    by code_simp
  from minimax_forced_pass [OF d o n, of 2 "- 1"] v o n
  show ?thesis by (simp add: numeral_3_eq_3 numeral_2_eq_2)
qed

text \<open>
  Claim C7: for a board and a player with at least one legal move, when the corner term of
  \<open>evaluate\<close> is zero on the successor of every legal move, \<open>getBestMove\<close> with the minimax
  strategy and \<open>maxDepth = 1\<close> returns what it returns with the greedy strategy, which is
  the outcome of the greedy scan of the legal moves; on a board the constructor can build
  that outcome is one of the legal moves.
\<close>

theorem minimax_depth1_is_greedy:
  assumes moves: "getValidMoves b p = Inr moves" "moves \<noteq> []"
    and corner: "cornerTermZero b p moves"
  shows "getBestMove (Suc fuel) r \<lparr>strategy = Minimax, maxDepth = 1\<rparr> b p
           = getBestMove fuel' r' \<lparr>strategy = Greedy, maxDepth = md\<rparr> b p
       \<and> getBestMove (Suc fuel) r \<lparr>strategy = Minimax, maxDepth = 1\<rparr> b p
           = Some (chooseGreedy b p moves)
       \<and> (playable b \<longrightarrow> (\<exists>mv \<in> set moves. chooseGreedy b p moves = Inr (Some mv)))"
proof -
  have "getBestMove (Suc fuel) r \<lparr>strategy = Minimax, maxDepth = 1\<rparr> b p
           = Some (chooseGreedy b p moves)"
    and "getBestMove fuel' r' \<lparr>strategy = Greedy, maxDepth = md\<rparr> b p
           = Some (chooseGreedy b p moves)"
    using moves minimaxLoop_greedyLoop [OF corner, of fuel "(first_move moves, NegInfinity)"]
    by (simp_all add: getBestMove_def chooseMinimax_def chooseGreedy_def)
  with chooseGreedy_playable [OF _ moves] show ?thesis by auto
qed

theorem minimax_depth1_is_greedy_witness:
  "getValidMoves scan4 1 = Inr [(2, 1), (1, 3), (2, 3)]
   \<and> [(2, 1), (1, 3), (2, 3)] \<noteq> ([] :: (int \<times> int) list)
   \<and> cornerTermZero scan4 1 [(2, 1), (1, 3), (2, 3)]
   \<and> getBestMove 1 0 \<lparr>strategy = Minimax, maxDepth = 1\<rparr> scan4 1 = Some (Inr (Some (1, 3)))
   \<and> getBestMove 0 0 \<lparr>strategy = Greedy, maxDepth = 3\<rparr> scan4 1 = Some (Inr (Some (1, 3)))"
proof -
  have m: "getValidMoves scan4 1 = Inr [(2, 1), (1, 3), (2, 3)]"
    by code_simp
  have n: "[(2, 1), (1, 3), (2, 3)] \<noteq> ([] :: (int \<times> int) list)"
    by simp
  have c: "cornerTermZero scan4 1 [(2, 1), (1, 3), (2, 3)]"
    by code_simp
  have g: "chooseGreedy scan4 1 [(2, 1), (1, 3), (2, 3)] = Inr (Some (1, 3))"
    by code_simp
  from minimax_depth1_is_greedy [OF m n c, of 0 0 0 0 3] m c g
  show ?thesis by auto
qed

end
